theory Spec2Isabelle
  imports Complex_Main
begin

section \<open>De Bruijn graph assembly: the model of debruijn.py\<close>

text \<open>
  The program cuts reads into k-mers, builds a weighted directed graph whose nodes are
  the (k-1)-mers, simplifies it (bubbles, entry tips, exit tips) and reads contigs off
  the remaining source-to-sink paths. Python exceptions are values of \<open>error\<close>;
  Python generators are modelled by the list of the values they yield, in order.
\<close>

datatype error =
    StatisticsError | ValueError | IndexError | NodeNotFound | NetworkXError
  | NetworkXPointlessConcept | UnboundLocalError | RecursionError

type_synonym node = string
type_synonym path = "node list"

subsection \<open>Python slices\<close>

text \<open>
  A slice bound is clamped to the sequence: a negative bound counts from the end, and
  whatever still falls outside is cut to \<open>0\<close> or to the length. \<open>py_slice xs lo hi\<close> is
  \<^verbatim>\<open>xs[lo:hi]\<close>.
\<close>

definition slice_bound :: "nat \<Rightarrow> int \<Rightarrow> nat" where
  "slice_bound n i = (if i < 0 then nat (max 0 (int n + i)) else min n (nat i))"

definition py_slice :: "'a list \<Rightarrow> int \<Rightarrow> int \<Rightarrow> 'a list" where
  "py_slice xs lo hi =
     (let a = slice_bound (length xs) lo; b = slice_bound (length xs) hi
      in take (b - a) (drop a xs))"

subsection \<open>K-mer extraction and counting\<close>

text \<open>
  \<^verbatim>\<open>for r,_ in enumerate(read[:len(read) - kmer_size + 1]): yield read[r:r+kmer_size]\<close>
  The loop runs once per element of the prefix slice; its bound
  \<open>len(read) - kmer_size + 1\<close> is an integer that may be negative.
\<close>

definition cut_kmer :: "string \<Rightarrow> int \<Rightarrow> string list" where
  "cut_kmer read kmer_size =
     map (\<lambda>r. py_slice read (int r) (int r + kmer_size))
       [0 ..< length (py_slice read 0 (int (length read) - kmer_size + 1))]"

text \<open>
  A Python dict keeps its keys in insertion order; it is an association list here.
  \<open>dict_incr\<close> is the body of the counting loop of \<open>build_kmer_dict\<close>, which is given
  the reads themselves (reading the file is outside the model).
\<close>

fun dict_incr :: "string \<Rightarrow> (string \<times> int) list \<Rightarrow> (string \<times> int) list" where
  "dict_incr kmer [] = [(kmer, 1)]"
| "dict_incr kmer ((k, c) # d) =
     (if k = kmer then (k, c + 1) # d else (k, c) # dict_incr kmer d)"

definition build_kmer_dict :: "string list \<Rightarrow> int \<Rightarrow> (string \<times> int) list" where
  "build_kmer_dict reads kmer_size =
     fold (\<lambda>read d. fold dict_incr (cut_kmer read kmer_size) d) reads []"

subsection \<open>The directed graph\<close>

text \<open>
  A networkx \<open>DiGraph\<close> keeps its nodes, and for every node its successors and its
  predecessors, in dicts, hence in insertion order. The model keeps the nodes and the
  weighted edges in insertion order; the successors (predecessors) of a node are read
  off the edge list in that order. Adding an edge that exists overwrites its weight in
  place; removing a node removes the edges at it and silently ignores an absent node.
\<close>

record graph =
  nodes :: "node list"
  edges :: "(node \<times> node \<times> int) list"

definition empty_graph :: graph where
  "empty_graph = \<lparr>nodes = [], edges = []\<rparr>"

definition add_node :: "node \<Rightarrow> graph \<Rightarrow> graph" where
  "add_node n g = (if n \<in> set (nodes g) then g else g\<lparr>nodes := nodes g @ [n]\<rparr>)"

fun set_weight :: "node \<Rightarrow> node \<Rightarrow> int \<Rightarrow> (node \<times> node \<times> int) list
    \<Rightarrow> (node \<times> node \<times> int) list" where
  "set_weight u v w [] = [(u, v, w)]"
| "set_weight u v w ((a, b, c) # es) =
     (if a = u \<and> b = v then (a, b, w) # es else (a, b, c) # set_weight u v w es)"

definition add_edge :: "node \<Rightarrow> node \<Rightarrow> int \<Rightarrow> graph \<Rightarrow> graph" where
  "add_edge u v w g =
     (let g' = add_node v (add_node u g) in g'\<lparr>edges := set_weight u v w (edges g')\<rparr>)"

definition remove_node :: "node \<Rightarrow> graph \<Rightarrow> graph" where
  "remove_node n g =
     \<lparr>nodes = filter (\<lambda>m. m \<noteq> n) (nodes g),
      edges = filter (\<lambda>(u, v, w). u \<noteq> n \<and> v \<noteq> n) (edges g)\<rparr>"

definition remove_nodes_from :: "node list \<Rightarrow> graph \<Rightarrow> graph" where
  "remove_nodes_from ns g = fold remove_node ns g"

definition predecessors :: "graph \<Rightarrow> node \<Rightarrow> node list" where
  "predecessors g n = map (\<lambda>(u, v, w). u) (filter (\<lambda>(u, v, w). v = n) (edges g))"

definition successors :: "graph \<Rightarrow> node \<Rightarrow> node list" where
  "successors g n = map (\<lambda>(u, v, w). v) (filter (\<lambda>(u, v, w). u = n) (edges g))"

text \<open>
  \<^verbatim>\<open>for kmer in kmer_dict: digraph.add_edge(kmer[:-1], kmer[1:], weight=kmer_dict[kmer])\<close>
  On a list \<open>kmer[:-1]\<close> is \<open>butlast\<close> and \<open>kmer[1:]\<close> is \<open>tl\<close>, the empty string
  included.
\<close>

definition add_kmer :: "string \<times> int \<Rightarrow> graph \<Rightarrow> graph" where
  "add_kmer = (\<lambda>(kmer, count) g. add_edge (butlast kmer) (tl kmer) count g)"

definition build_graph :: "(string \<times> int) list \<Rightarrow> graph" where
  "build_graph kmer_dict = fold add_kmer kmer_dict empty_graph"

subsection \<open>Removing paths\<close>

text \<open>
  Each path of the list loses all its nodes, all but the last, all but the first, or
  only its interior ones (\<open>path[1:-1]\<close>), as the two flags say.
\<close>

fun remove_paths :: "graph \<Rightarrow> path list \<Rightarrow> bool \<Rightarrow> bool \<Rightarrow> graph" where
  "remove_paths g [] delete_entry_node delete_sink_node = g"
| "remove_paths g (p # path_list) delete_entry_node delete_sink_node =
     remove_paths
       (if delete_entry_node \<and> delete_sink_node then remove_nodes_from p g
        else if delete_entry_node then remove_nodes_from (butlast p) g
        else if delete_sink_node then remove_nodes_from (tl p) g
        else remove_nodes_from (butlast (tl p)) g)
       path_list delete_entry_node delete_sink_node"

subsection \<open>Statistics and list operations of the standard library\<close>

text \<open>
  Mean weights are rationals: \<open>statistics\<close> sums exactly, and the model keeps the exact
  value where Python rounds the quotient to a float. \<open>statistics.stdev\<close> raises
  \<open>StatisticsError\<close> on fewer than two values and otherwise returns the square root
  of the sample variance, which is positive exactly when the variance is: the test
  \<^verbatim>\<open>statistics.stdev(xs) > 0\<close> is \<open>stdev_positive xs\<close>.
\<close>

definition mean :: "rat list \<Rightarrow> error + rat" where
  "mean xs = (if xs = [] then Inl StatisticsError
              else Inr (sum_list xs / of_nat (length xs)))"

definition variance :: "rat list \<Rightarrow> error + rat" where
  "variance xs =
     (if length xs < 2 then Inl StatisticsError
      else Inr (sum_list (map (\<lambda>x. (x - sum_list xs / of_nat (length xs))\<^sup>2) xs)
                / of_nat (length xs - 1)))"

definition stdev_positive :: "rat list \<Rightarrow> error + bool" where
  "stdev_positive xs = (case variance xs of Inl e \<Rightarrow> Inl e | Inr v \<Rightarrow> Inr (0 < v))"

text \<open>\<open>max(xs)\<close>, \<open>xs.index(x)\<close> and \<open>del xs[i]\<close> with the exceptions they raise.\<close>

definition py_max :: "('a::linorder) list \<Rightarrow> error + 'a" where
  "py_max xs = (case xs of [] \<Rightarrow> Inl ValueError | x # rest \<Rightarrow> Inr (fold max rest x))"

fun index_of :: "'a list \<Rightarrow> 'a \<Rightarrow> error + nat" where
  "index_of [] x = Inl ValueError"
| "index_of (y # ys) x =
     (if y = x then Inr 0
      else (case index_of ys x of Inl e \<Rightarrow> Inl e | Inr i \<Rightarrow> Inr (Suc i)))"

definition delete_nth :: "nat \<Rightarrow> 'a list \<Rightarrow> 'a list" where
  "delete_nth i xs = take i xs @ drop (Suc i) xs"

definition del_at :: "'a list \<Rightarrow> nat \<Rightarrow> error + 'a list" where
  "del_at xs i = (if i < length xs then Inr (delete_nth i xs) else Inl IndexError)"

subsection \<open>The path selector\<close>

text \<open>
  The graph is mutated in place, so a call that raises leaves a graph behind as well:
  \<open>Raised e g\<close> is the exception \<open>e\<close> with the graph in state \<open>g\<close>.
\<close>

datatype outcome = Returned graph | Raised error graph

fun final_graph :: "outcome \<Rightarrow> graph" where
  "final_graph (Returned g) = g"
| "final_graph (Raised e g) = g"

text \<open>\<^verbatim>\<open>del path_list[i]; graph = remove_paths(graph, path_list, ...)\<close>\<close>

definition del_and_remove :: "graph \<Rightarrow> path list \<Rightarrow> nat \<Rightarrow> bool \<Rightarrow> bool \<Rightarrow> outcome" where
  "del_and_remove g path_list i delete_entry_node delete_sink_node =
     (case del_at path_list i of
        Inl e \<Rightarrow> Raised e g
      | Inr rest \<Rightarrow> Returned (remove_paths g rest delete_entry_node delete_sink_node))"

text \<open>
  \<open>randint a b\<close> stands for the value \<open>random.randint(a, b)\<close> returns right after
  \<open>random.seed(9001)\<close>: the generator is a parameter of the model. The third branch
  looks the drawn number up among the mean weights (\<open>weight_avg_list.index\<close>) and
  deletes the path at the position found.
\<close>

definition select_best_path ::
  "(int \<Rightarrow> int \<Rightarrow> int) \<Rightarrow> graph \<Rightarrow> path list \<Rightarrow> nat list \<Rightarrow> rat list \<Rightarrow> bool \<Rightarrow> bool
     \<Rightarrow> outcome" where
  "select_best_path randint g path_list path_length weight_avg_list
       delete_entry_node delete_sink_node =
     (case stdev_positive weight_avg_list of
        Inl e \<Rightarrow> Raised e g
      | Inr True \<Rightarrow>
          (case py_max weight_avg_list of
             Inl e \<Rightarrow> Raised e g
           | Inr m \<Rightarrow>
              (case index_of weight_avg_list m of
                 Inl e \<Rightarrow> Raised e g
               | Inr i \<Rightarrow> del_and_remove g path_list i delete_entry_node delete_sink_node))
      | Inr False \<Rightarrow>
          (case stdev_positive (map rat_of_nat path_length) of
             Inl e \<Rightarrow> Raised e g
           | Inr True \<Rightarrow>
              (case py_max path_length of
                 Inl e \<Rightarrow> Raised e g
               | Inr m \<Rightarrow>
                  (case index_of path_length m of
                     Inl e \<Rightarrow> Raised e g
                   | Inr i \<Rightarrow>
                       del_and_remove g path_list i delete_entry_node delete_sink_node))
           | Inr False \<Rightarrow>
              (case index_of weight_avg_list
                      (rat_of_int (randint 0 (int (length path_list)))) of
                 Inl e \<Rightarrow> Raised e g
               | Inr i \<Rightarrow> del_and_remove g path_list i delete_entry_node delete_sink_node)))"

subsection \<open>Mean weight of a path\<close>

text \<open>
  \<^verbatim>\<open>statistics.mean([d["weight"] for (u, v, d) in graph.subgraph(path).edges(data=True)])\<close>
  \<open>graph.subgraph(path)\<close> is the subgraph induced by the nodes of the path: it holds
  every edge of the graph whose two ends are nodes of the path.
\<close>

definition subgraph_edges :: "graph \<Rightarrow> node list \<Rightarrow> (node \<times> node \<times> int) list" where
  "subgraph_edges g ns = filter (\<lambda>(u, v, w). u \<in> set ns \<and> v \<in> set ns) (edges g)"

definition path_average_weight :: "graph \<Rightarrow> path \<Rightarrow> error + rat" where
  "path_average_weight g p = mean (map (\<lambda>(u, v, w). rat_of_int w) (subgraph_edges g p))"

text \<open>
  The reading of the specification, for comparison: the edges that join consecutive
  nodes of the path, and the mean of their weights.
\<close>

definition consecutive_edges :: "graph \<Rightarrow> path \<Rightarrow> (node \<times> node \<times> int) list" where
  "consecutive_edges g p =
     filter (\<lambda>(u, v, w). (u, v) \<in> set (zip p (tl p))) (edges g)"

definition mean_over_path_edges :: "graph \<Rightarrow> path \<Rightarrow> error + rat" where
  "mean_over_path_edges g p = mean (map (\<lambda>(u, v, w). rat_of_int w) (consecutive_edges g p))"

subsection \<open>Graph traversal of networkx\<close>

text \<open>
  \<open>nx.all_simple_paths(G, source, target)\<close> is a depth-first search that follows the
  successors in their stored order, never re-enters a node of the current path, yields
  the path when it meets the target, and goes at most \<open>len(G) - 1\<close> edges deep (the
  library's \<open>cutoff\<close>). A source that is not a node raises \<open>NodeNotFound\<close>; a source
  equal to the target yields nothing (networkx 2.x, which the program was written
  against). Every call of the program passes a target that is a node of the graph; the
  model raises \<open>NodeNotFound\<close> for any other.
\<close>

fun simple_paths_dfs :: "nat \<Rightarrow> graph \<Rightarrow> node \<Rightarrow> path \<Rightarrow> node \<Rightarrow> path list" where
  "simple_paths_dfs 0 g target visited cur = []"
| "simple_paths_dfs (Suc cutoff) g target visited cur =
     concat (map (\<lambda>child.
                    if child \<in> set visited then []
                    else if child = target then [visited @ [child]]
                    else simple_paths_dfs cutoff g target (visited @ [child]) child)
                 (successors g cur))"

definition all_simple_paths :: "graph \<Rightarrow> node \<Rightarrow> node \<Rightarrow> error + path list" where
  "all_simple_paths g source target =
     (if source \<notin> set (nodes g) then Inl NodeNotFound
      else if target \<notin> set (nodes g) then Inl NodeNotFound
      else if source = target then Inr []
      else Inr (simple_paths_dfs (length (nodes g) - 1) g target [source] source))"

text \<open>
  \<open>nx.has_path\<close> raises \<open>NodeNotFound\<close> unless both ends are nodes and otherwise says
  whether the target is reachable (a node reaches itself). Reachability is computed by
  growing the set of reached nodes once per node of the graph.
\<close>

definition grow :: "(node \<Rightarrow> node list) \<Rightarrow> node list \<Rightarrow> node list" where
  "grow next seen = remdups (seen @ concat (map next seen))"

definition reach :: "graph \<Rightarrow> (node \<Rightarrow> node list) \<Rightarrow> node list \<Rightarrow> node list" where
  "reach g next start = (grow next ^^ length (nodes g)) start"

definition has_path :: "graph \<Rightarrow> node \<Rightarrow> node \<Rightarrow> error + bool" where
  "has_path g source target =
     (if source \<in> set (nodes g) \<and> target \<in> set (nodes g)
      then Inr (target \<in> set (reach g (successors g) [source]))
      else Inl NodeNotFound)"

text \<open>
  \<open>nx.lowest_common_ancestor(G, i, j)\<close> raises \<open>NetworkXError\<close> unless the graph is
  acyclic, returns \<open>None\<close> when no node reaches both \<open>i\<close> and \<open>j\<close> (a node counts as its
  own ancestor), and otherwise a common ancestor none of whose successors is a common
  ancestor. Where several such nodes exist the library returns whichever its hash-set
  iteration meets; the model starts from the first common ancestor in node order and
  walks down through first successors. The simplifier below takes the query as a
  parameter, so what is proved of it holds for every choice.
\<close>

definition is_directed_acyclic_graph :: "graph \<Rightarrow> bool" where
  "is_directed_acyclic_graph g =
     list_all (\<lambda>n. n \<notin> set (reach g (successors g) (successors g n))) (nodes g)"

definition ancestors_or_self :: "graph \<Rightarrow> node \<Rightarrow> node list" where
  "ancestors_or_self g n = reach g (predecessors g) [n]"

fun walk_down :: "nat \<Rightarrow> graph \<Rightarrow> node list \<Rightarrow> node \<Rightarrow> node" where
  "walk_down 0 g common a = a"
| "walk_down (Suc k) g common a =
     (case filter (\<lambda>s. s \<in> set common) (successors g a) of
        [] \<Rightarrow> a
      | s # _ \<Rightarrow> walk_down k g common s)"

definition lowest_common_ancestor :: "graph \<Rightarrow> node \<Rightarrow> node \<Rightarrow> error + node option" where
  "lowest_common_ancestor g i j =
     (if \<not> is_directed_acyclic_graph g then Inl NetworkXError
      else if nodes g = [] then Inl NetworkXPointlessConcept
      else if i \<notin> set (nodes g) then Inl NodeNotFound
      else if j \<notin> set (nodes g) then Inl NodeNotFound
      else (case filter (\<lambda>a. a \<in> set (ancestors_or_self g i) \<and> a \<in> set (ancestors_or_self g j))
                        (nodes g) of
              [] \<Rightarrow> Inr None
            | a # common \<Rightarrow> Inr (Some (walk_down (length (nodes g)) g (a # common) a))))"

subsection \<open>Bubbles\<close>

text \<open>
  \<open>solve_bubble\<close> lists every simple path from the ancestor to the descendant with its
  node count and its mean weight and hands them to the selector with both flags off.
  The ancestor may be Python's \<open>None\<close>, which is no node of the graph.
\<close>

fun weights_of :: "graph \<Rightarrow> path list \<Rightarrow> error + rat list" where
  "weights_of g [] = Inr []"
| "weights_of g (p # ps) =
     (case path_average_weight g p of
        Inl e \<Rightarrow> Inl e
      | Inr w \<Rightarrow> (case weights_of g ps of Inl e \<Rightarrow> Inl e | Inr ws \<Rightarrow> Inr (w # ws)))"

definition solve_bubble ::
  "(int \<Rightarrow> int \<Rightarrow> int) \<Rightarrow> graph \<Rightarrow> node option \<Rightarrow> node \<Rightarrow> outcome" where
  "solve_bubble randint g ancestor_node descendant_node =
     (case ancestor_node of
        None \<Rightarrow> Raised NodeNotFound g
      | Some a \<Rightarrow>
          (case all_simple_paths g a descendant_node of
             Inl e \<Rightarrow> Raised e g
           | Inr path_list \<Rightarrow>
              (case weights_of g path_list of
                 Inl e \<Rightarrow> Raised e g
               | Inr weight_avg_list \<Rightarrow>
                   select_best_path randint g path_list (map length path_list)
                     weight_avg_list False False)))"

text \<open>
  The local variables of the scan of \<open>simplify_bubbles\<close>. \<open>ancestor_node\<close> holds the
  answer of the latest query (\<open>None\<close> is Python's \<open>None\<close>); \<open>noeud_n\<close> is \<open>None\<close> until
  it is first assigned. The innermost loop stops at the first answer other than
  \<open>None\<close>; its \<open>break\<close> leaves that loop only, so the loop over \<open>i\<close> and the loop over
  the nodes go on. The loop over the nodes stops at a node with at most one predecessor
  once \<open>bubble\<close> is set.
\<close>

record bubble_vars =
  bubble :: bool
  ancestor_node :: "node option"
  noeud_n :: "node option"

type_synonym lca_query = "graph \<Rightarrow> node \<Rightarrow> node \<Rightarrow> error + node option"

fun loop_j :: "lca_query \<Rightarrow> graph \<Rightarrow> node \<Rightarrow> node list \<Rightarrow> bubble_vars \<Rightarrow> error + bubble_vars" where
  "loop_j lca g i [] vars = Inr vars"
| "loop_j lca g i (j # js) vars =
     (case lca g i j of
        Inl e \<Rightarrow> Inl e
      | Inr a \<Rightarrow>
          (if a \<noteq> None then Inr (vars\<lparr>ancestor_node := a, bubble := True\<rparr>)
           else loop_j lca g i js (vars\<lparr>ancestor_node := a\<rparr>)))"

fun loop_i :: "lca_query \<Rightarrow> graph \<Rightarrow> node list \<Rightarrow> bubble_vars \<Rightarrow> error + bubble_vars" where
  "loop_i lca g [] vars = Inr vars"
| "loop_i lca g (i # rest) vars =
     (case loop_j lca g i rest vars of
        Inl e \<Rightarrow> Inl e
      | Inr vars' \<Rightarrow> loop_i lca g rest vars')"

fun loop_n :: "lca_query \<Rightarrow> graph \<Rightarrow> node list \<Rightarrow> bubble_vars \<Rightarrow> error + bubble_vars" where
  "loop_n lca g [] vars = Inr vars"
| "loop_n lca g (n # ns) vars =
     (if length (predecessors g n) > 1
      then (case loop_i lca g (predecessors g n) (vars\<lparr>noeud_n := Some n\<rparr>) of
              Inl e \<Rightarrow> Inl e
            | Inr vars' \<Rightarrow> loop_n lca g ns vars')
      else if bubble vars then Inr vars
      else loop_n lca g ns vars)"

text \<open>
  The function calls itself once per resolved bubble. The first argument after the two
  library parameters is the number of nested calls the interpreter still allows; a
  call beyond it raises \<open>RecursionError\<close>.
\<close>

fun simplify_bubbles :: "lca_query \<Rightarrow> (int \<Rightarrow> int \<Rightarrow> int) \<Rightarrow> nat \<Rightarrow> graph \<Rightarrow> outcome" where
  "simplify_bubbles lca randint 0 g = Raised RecursionError g"
| "simplify_bubbles lca randint (Suc depth) g =
     (case loop_n lca g (nodes g) \<lparr>bubble = False, ancestor_node = None, noeud_n = None\<rparr> of
        Inl e \<Rightarrow> Raised e g
      | Inr vars \<Rightarrow>
          (if bubble vars
           then (case noeud_n vars of
                   None \<Rightarrow> Raised UnboundLocalError g
                 | Some n \<Rightarrow>
                    (case solve_bubble randint g (ancestor_node vars) n of
                       Raised e g' \<Rightarrow> Raised e g'
                     | Returned g' \<Rightarrow> simplify_bubbles lca randint depth g'))
           else Returned g))"

subsection \<open>Tips\<close>

text \<open>
  The candidate lists of one scanned node: for every starting node that has a path to
  the node, the first simple path the search yields (\<open>path[0]\<close>, an \<open>IndexError\<close>
  when it yields none), its node count and its mean weight.
\<close>

type_synonym candidates = "path list \<times> nat list \<times> rat list"

fun entry_candidates :: "graph \<Rightarrow> node list \<Rightarrow> node \<Rightarrow> candidates \<Rightarrow> error + candidates" where
  "entry_candidates g [] n acc = Inr acc"
| "entry_candidates g (start # starting_nodes) n (path_list, path_length, weight_avg_list) =
     (case has_path g start n of
        Inl e \<Rightarrow> Inl e
      | Inr False \<Rightarrow>
          entry_candidates g starting_nodes n (path_list, path_length, weight_avg_list)
      | Inr True \<Rightarrow>
          (case all_simple_paths g start n of
             Inl e \<Rightarrow> Inl e
           | Inr [] \<Rightarrow> Inl IndexError
           | Inr (p # _) \<Rightarrow>
              (case path_average_weight g p of
                 Inl e \<Rightarrow> Inl e
               | Inr w \<Rightarrow>
                   entry_candidates g starting_nodes n
                     (path_list @ [p], path_length @ [length p], weight_avg_list @ [w]))))"

text \<open>
  The scan stops at the first node with more than one predecessor for which a
  candidate was recorded (\<open>tips\<close> is then true) and answers \<open>None\<close> when the loop runs
  out with \<open>tips\<close> false.
\<close>

fun scan_entry_tips :: "graph \<Rightarrow> node list \<Rightarrow> node list \<Rightarrow> error + candidates option" where
  "scan_entry_tips g starting_nodes [] = Inr None"
| "scan_entry_tips g starting_nodes (n # ns) =
     (if length (predecessors g n) > 1
      then (case entry_candidates g starting_nodes n ([], [], []) of
              Inl e \<Rightarrow> Inl e
            | Inr (path_list, path_length, weight_avg_list) \<Rightarrow>
                (if path_list \<noteq> [] then Inr (Some (path_list, path_length, weight_avg_list))
                 else scan_entry_tips g starting_nodes ns))
      else scan_entry_tips g starting_nodes ns)"

text \<open>
  \<open>tips\<close> is assigned inside the loop over the nodes only: on a graph without nodes the
  test \<open>if tips\<close> after the loop reads an unbound variable. The list of starting nodes
  is the caller's and is passed on unchanged to the recursive call.
\<close>

fun solve_entry_tips :: "(int \<Rightarrow> int \<Rightarrow> int) \<Rightarrow> nat \<Rightarrow> graph \<Rightarrow> node list \<Rightarrow> outcome" where
  "solve_entry_tips randint 0 g starting_nodes = Raised RecursionError g"
| "solve_entry_tips randint (Suc depth) g starting_nodes =
     (if nodes g = [] then Raised UnboundLocalError g
      else (case scan_entry_tips g starting_nodes (nodes g) of
              Inl e \<Rightarrow> Raised e g
            | Inr None \<Rightarrow> Returned g
            | Inr (Some (path_list, path_length, weight_avg_list)) \<Rightarrow>
                (case select_best_path randint g path_list path_length weight_avg_list
                        True False of
                   Raised e g' \<Rightarrow> Raised e g'
                 | Returned g' \<Rightarrow> solve_entry_tips randint depth g' starting_nodes)))"

fun out_candidates :: "graph \<Rightarrow> node list \<Rightarrow> node \<Rightarrow> candidates \<Rightarrow> error + candidates" where
  "out_candidates g [] n acc = Inr acc"
| "out_candidates g (sink # ending_nodes) n (path_list, path_length, weight_avg_list) =
     (case has_path g n sink of
        Inl e \<Rightarrow> Inl e
      | Inr False \<Rightarrow>
          out_candidates g ending_nodes n (path_list, path_length, weight_avg_list)
      | Inr True \<Rightarrow>
          (case all_simple_paths g n sink of
             Inl e \<Rightarrow> Inl e
           | Inr [] \<Rightarrow> Inl IndexError
           | Inr (p # _) \<Rightarrow>
              (case path_average_weight g p of
                 Inl e \<Rightarrow> Inl e
               | Inr w \<Rightarrow>
                   out_candidates g ending_nodes n
                     (path_list @ [p], path_length @ [length p], weight_avg_list @ [w]))))"

fun scan_out_tips :: "graph \<Rightarrow> node list \<Rightarrow> node list \<Rightarrow> error + candidates option" where
  "scan_out_tips g ending_nodes [] = Inr None"
| "scan_out_tips g ending_nodes (n # ns) =
     (if length (successors g n) > 1
      then (case out_candidates g ending_nodes n ([], [], []) of
              Inl e \<Rightarrow> Inl e
            | Inr (path_list, path_length, weight_avg_list) \<Rightarrow>
                (if path_list \<noteq> [] then Inr (Some (path_list, path_length, weight_avg_list))
                 else scan_out_tips g ending_nodes ns))
      else scan_out_tips g ending_nodes ns)"

fun solve_out_tips :: "(int \<Rightarrow> int \<Rightarrow> int) \<Rightarrow> nat \<Rightarrow> graph \<Rightarrow> node list \<Rightarrow> outcome" where
  "solve_out_tips randint 0 g ending_nodes = Raised RecursionError g"
| "solve_out_tips randint (Suc depth) g ending_nodes =
     (if nodes g = [] then Raised UnboundLocalError g
      else (case scan_out_tips g ending_nodes (nodes g) of
              Inl e \<Rightarrow> Raised e g
            | Inr None \<Rightarrow> Returned g
            | Inr (Some (path_list, path_length, weight_avg_list)) \<Rightarrow>
                (case select_best_path randint g path_list path_length weight_avg_list
                        False True of
                   Raised e g' \<Rightarrow> Raised e g'
                 | Returned g' \<Rightarrow> solve_out_tips randint depth g' ending_nodes)))"

definition get_starting_nodes :: "graph \<Rightarrow> node list" where
  "get_starting_nodes g = filter (\<lambda>n. predecessors g n = []) (nodes g)"

definition get_sink_nodes :: "graph \<Rightarrow> node list" where
  "get_sink_nodes g = filter (\<lambda>n. successors g n = []) (nodes g)"

subsection \<open>Contigs\<close>

text \<open>
  \<open>seq\<close> is set to the empty string once per connected (start, end) pair, before the
  loop over the simple paths of the pair; each path appends its first node and the last
  character of every later node (\<open>kmer[-1]\<close>, an \<open>IndexError\<close> on an empty string) to
  \<open>seq\<close>, and the pair (\<open>seq\<close>, \<open>len(seq)\<close>) is recorded.
\<close>

fun last_chars :: "string list \<Rightarrow> error + string" where
  "last_chars [] = Inr []"
| "last_chars (kmer # kmers) =
     (if kmer = [] then Inl IndexError
      else (case last_chars kmers of Inl e \<Rightarrow> Inl e | Inr cs \<Rightarrow> Inr (last kmer # cs)))"

fun contigs_of_paths :: "path list \<Rightarrow> string \<Rightarrow> error + (string \<times> nat) list" where
  "contigs_of_paths [] seq = Inr []"
| "contigs_of_paths ([] # paths) seq = Inl IndexError"
| "contigs_of_paths ((first # rest) # paths) seq =
     (case last_chars rest of
        Inl e \<Rightarrow> Inl e
      | Inr cs \<Rightarrow>
          (case contigs_of_paths paths (seq @ first @ cs) of
             Inl e \<Rightarrow> Inl e
           | Inr contigs \<Rightarrow> Inr ((seq @ first @ cs, length (seq @ first @ cs)) # contigs)))"

fun contigs_from :: "graph \<Rightarrow> node \<Rightarrow> node list \<Rightarrow> error + (string \<times> nat) list" where
  "contigs_from g start [] = Inr []"
| "contigs_from g start (sink # ending_nodes) =
     (case has_path g start sink of
        Inl e \<Rightarrow> Inl e
      | Inr linked \<Rightarrow>
          (case (if linked
                 then (case all_simple_paths g start sink of
                         Inl e \<Rightarrow> Inl e
                       | Inr paths \<Rightarrow> contigs_of_paths paths [])
                 else Inr []) of
             Inl e \<Rightarrow> Inl e
           | Inr contigs \<Rightarrow>
               (case contigs_from g start ending_nodes of
                  Inl e \<Rightarrow> Inl e
                | Inr others \<Rightarrow> Inr (contigs @ others))))"

fun get_contigs :: "graph \<Rightarrow> node list \<Rightarrow> node list \<Rightarrow> error + (string \<times> nat) list" where
  "get_contigs g [] ending_nodes = Inr []"
| "get_contigs g (start # starting_nodes) ending_nodes =
     (case contigs_from g start ending_nodes of
        Inl e \<Rightarrow> Inl e
      | Inr contigs \<Rightarrow>
          (case get_contigs g starting_nodes ending_nodes of
             Inl e \<Rightarrow> Inl e
           | Inr others \<Rightarrow> Inr (contigs @ others)))"

text \<open>The contig the specification derives from one path.\<close>

definition contig_of_path :: "path \<Rightarrow> string \<times> nat" where
  "contig_of_path p =
     (hd p @ map last (tl p), length (hd p @ map last (tl p)))"

subsection \<open>Notions used to state the properties\<close>

text \<open>
  The nodes one path loses in \<open>remove_paths\<close>, as a function of the two flags, and the
  relation "nothing was added": every node and every weighted edge of the first graph
  is one of the second.
\<close>

definition removed_nodes :: "bool \<Rightarrow> bool \<Rightarrow> path \<Rightarrow> node list" where
  "removed_nodes delete_entry_node delete_sink_node p =
     (if delete_entry_node \<and> delete_sink_node then p
      else if delete_entry_node then butlast p
      else if delete_sink_node then tl p
      else butlast (tl p))"

text \<open>The first position of a list that holds its maximum.\<close>

definition first_maximum :: "('a::linorder) list \<Rightarrow> nat \<Rightarrow> bool" where
  "first_maximum xs i \<longleftrightarrow>
     i < length xs \<and> xs ! i = Max (set xs) \<and> xs ! i \<notin> set (take i xs)"

text \<open>The edge a counted k-mer stands for: from its prefix to its suffix, with its count.\<close>

definition kmer_edge :: "string \<times> int \<Rightarrow> node \<times> node \<times> int" where
  "kmer_edge = (\<lambda>(kmer, count). (butlast kmer, tl kmer, count))"

text \<open>The pairs the two inner loops of the bubble scan range over: each element with every later one.\<close>

fun later_pairs :: "'a list \<Rightarrow> ('a \<times> 'a) list" where
  "later_pairs [] = []"
| "later_pairs (x # xs) = map (Pair x) xs @ later_pairs xs"

definition subgraph :: "graph \<Rightarrow> graph \<Rightarrow> bool" where
  "subgraph g' g \<longleftrightarrow> set (nodes g') \<subseteq> set (nodes g) \<and> set (edges g') \<subseteq> set (edges g)"

subsection \<open>Sample inputs\<close>

text \<open>
  \<open>constant_draw d\<close> is a generator that answers \<open>d\<close> whatever the bounds. CPython's
  generator, seeded with 9001, answers \<open>randint(0, n)\<close> with \<open>0\<close> for every \<open>n\<close> from 1
  to 14 and with \<open>1\<close> for every \<open>n\<close> from 15 to 30: on the candidate lists below it is
  \<open>constant_draw 0\<close>.
\<close>

definition constant_draw :: "int \<Rightarrow> int \<Rightarrow> int \<Rightarrow> int" where
  "constant_draw d a b = d"

text \<open>
  Three graphs over one-letter nodes (k = 2), built from their k-mer counts: two paths
  of equal weight and length from A to D; a path A, B, C with the chord A to C; and two
  bubbles that end at the neighbouring nodes D and E.
\<close>

definition diamond :: graph where
  "diamond = build_graph [(''AB'', 1), (''BD'', 2), (''AC'', 2), (''CD'', 1)]"

definition triangle :: graph where
  "triangle = build_graph [(''AB'', 1), (''BC'', 1), (''AC'', 4)]"

definition two_bubbles :: graph where
  "two_bubbles = build_graph
     [(''AB'', 1), (''AC'', 1), (''BD'', 1), (''CD'', 5), (''BE'', 5), (''CE'', 1)]"

text \<open>
  A junction C entered from the two sources A and B, and a junction B left towards the
  two sinks C and D.
\<close>

definition entry_tip :: graph where
  "entry_tip = build_graph [(''AC'', 3), (''BC'', 1), (''CD'', 2)]"

definition out_tip :: graph where
  "out_tip = build_graph [(''AB'', 2), (''BC'', 3), (''BD'', 1)]"

text \<open>Three paths of equal weight and length from A to E.\<close>

definition three_paths :: graph where
  "three_paths = build_graph
     [(''AB'', 2), (''BE'', 2), (''AC'', 2), (''CE'', 2), (''AD'', 2), (''DE'', 2)]"

definition three_candidates :: "path list" where
  "three_candidates = [[''A'', ''B'', ''E''], [''A'', ''C'', ''E''], [''A'', ''D'', ''E'']]"

text \<open>
  A path A, B, C heavier than its chord from A to C, and three paths from A to E of
  which the first two share the node B.
\<close>

definition heavy_detour :: graph where
  "heavy_detour = build_graph [(''AB'', 5), (''BC'', 5), (''AC'', 1)]"

definition shared_prefix :: graph where
  "shared_prefix = build_graph
     [(''AB'', 4), (''BC'', 9), (''BD'', 1), (''CE'', 9), (''DE'', 1), (''AX'', 1), (''XE'', 1)]"

text \<open>A junction D entered from the unrelated sources B and C, beside the cycle X, Y.\<close>

definition cycle_beside_junction :: graph where
  "cycle_beside_junction = build_graph [(''XY'', 1), (''YX'', 1), (''BD'', 1), (''CD'', 1)]"

section \<open>Properties\<close>

subsection \<open>Simplification only removes\<close>

lemma subgraph_refl: "subgraph g g"
  by (simp add: subgraph_def)

lemma subgraph_trans: "subgraph g'' g' \<Longrightarrow> subgraph g' g \<Longrightarrow> subgraph g'' g"
  by (auto simp: subgraph_def)

lemma nodes_remove_node: "set (nodes (remove_node n g)) = set (nodes g) - {n}"
  by (auto simp: remove_node_def)

lemma edges_remove_node:
  "set (edges (remove_node n g)) = {(u, v, w). (u, v, w) \<in> set (edges g) \<and> u \<noteq> n \<and> v \<noteq> n}"
  by (auto simp: remove_node_def)

lemma nodes_remove_nodes_from:
  "set (nodes (remove_nodes_from ns g)) = set (nodes g) - set ns"
  unfolding remove_nodes_from_def
  by (induction ns arbitrary: g) (auto simp: nodes_remove_node)

lemma edges_remove_nodes_from:
  "set (edges (remove_nodes_from ns g)) =
     {(u, v, w). (u, v, w) \<in> set (edges g) \<and> u \<notin> set ns \<and> v \<notin> set ns}"
  unfolding remove_nodes_from_def
  by (induction ns arbitrary: g) (auto simp: edges_remove_node)

lemma remove_paths_step:
  "remove_paths g (p # ps) de ds =
     remove_paths (remove_nodes_from (removed_nodes de ds p) g) ps de ds"
  by (simp add: removed_nodes_def)

lemma nodes_remove_paths:
  "set (nodes (remove_paths g ps de ds)) =
     set (nodes g) - (\<Union>p\<in>set ps. set (removed_nodes de ds p))"
proof (induction ps arbitrary: g)
  case Nil
  then show ?case by simp
next
  case (Cons p ps)
  show ?case
    unfolding remove_paths_step Cons.IH nodes_remove_nodes_from by auto
qed

lemma edges_remove_paths:
  "set (edges (remove_paths g ps de ds)) =
     {(u, v, w). (u, v, w) \<in> set (edges g)
        \<and> u \<notin> (\<Union>p\<in>set ps. set (removed_nodes de ds p))
        \<and> v \<notin> (\<Union>p\<in>set ps. set (removed_nodes de ds p))}"
proof (induction ps arbitrary: g)
  case Nil
  then show ?case by simp
next
  case (Cons p ps)
  show ?case
    unfolding remove_paths_step Cons.IH edges_remove_nodes_from by auto
qed

lemma remove_paths_subgraph: "subgraph (remove_paths g ps de ds) g"
  unfolding subgraph_def nodes_remove_paths edges_remove_paths by auto

lemma del_and_remove_subgraph: "subgraph (final_graph (del_and_remove g ps i de ds)) g"
  by (simp add: del_and_remove_def remove_paths_subgraph subgraph_refl split: sum.splits)

lemma select_best_path_subgraph:
  "subgraph (final_graph (select_best_path randint g ps ls ws de ds)) g"
  by (simp add: select_best_path_def del_and_remove_subgraph subgraph_refl
           split: sum.splits bool.splits)

lemma solve_bubble_subgraph: "subgraph (final_graph (solve_bubble randint g a n)) g"
  by (simp add: solve_bubble_def select_best_path_subgraph subgraph_refl
           split: option.splits sum.splits)

lemma simplify_bubbles_subgraph:
  "subgraph (final_graph (simplify_bubbles lca randint depth g)) g"
proof (induction depth arbitrary: g)
  case 0
  then show ?case by (simp add: subgraph_refl)
next
  case (Suc depth)
  show ?case
  proof (cases "loop_n lca g (nodes g) \<lparr>bubble = False, ancestor_node = None, noeud_n = None\<rparr>")
    case (Inl e)
    then show ?thesis by (simp add: subgraph_refl)
  next
    case (Inr vars)
    show ?thesis
    proof (cases "bubble vars")
      case False
      then show ?thesis using Inr by (simp add: subgraph_refl)
    next
      case True
      show ?thesis
      proof (cases "noeud_n vars")
        case None
        then show ?thesis using Inr True by (simp add: subgraph_refl)
      next
        case (Some n)
        have step: "subgraph (final_graph (solve_bubble randint g (ancestor_node vars) n)) g"
          by (rule solve_bubble_subgraph)
        show ?thesis
        proof (cases "solve_bubble randint g (ancestor_node vars) n")
          case (Raised e g')
          then show ?thesis using Inr True Some step by simp
        next
          case (Returned g')
          then have "subgraph g' g" using step by simp
          moreover have "subgraph (final_graph (simplify_bubbles lca randint depth g')) g'"
            by (rule Suc.IH)
          ultimately show ?thesis
            using Inr True Some Returned by (auto intro: subgraph_trans)
        qed
      qed
    qed
  qed
qed

text \<open>
  The two tip resolvers differ in the scan and in the flags only; one argument covers
  both: a function that either stops with the graph it was given or hands the
  selector's graph to the next, shallower call.
\<close>

lemma tips_step_subgraph:
  assumes IH: "\<And>g'. subgraph (final_graph (rec g')) g'"
  shows "subgraph (final_graph
           (if nodes g = [] then Raised UnboundLocalError g
            else (case found of
                    Inl e \<Rightarrow> Raised e g
                  | Inr None \<Rightarrow> Returned g
                  | Inr (Some (ps, ls, ws)) \<Rightarrow>
                      (case select_best_path randint g ps ls ws de ds of
                         Raised e g' \<Rightarrow> Raised e g'
                       | Returned g' \<Rightarrow> rec g')))) g"
proof -
  have sel: "subgraph (final_graph (select_best_path randint g ps ls ws de ds)) g"
    for ps ls ws
    by (rule select_best_path_subgraph)
  have "subgraph (final_graph
          (case select_best_path randint g ps ls ws de ds of
             Raised e g' \<Rightarrow> Raised e g' | Returned g' \<Rightarrow> rec g')) g" for ps ls ws
    using sel[of ps ls ws] IH
    by (cases "select_best_path randint g ps ls ws de ds") (auto intro: subgraph_trans)
  then show ?thesis
    by (auto simp: subgraph_refl split: sum.splits option.splits)
qed

lemma solve_entry_tips_subgraph:
  "subgraph (final_graph (solve_entry_tips randint depth g starting_nodes)) g"
proof (induction depth arbitrary: g)
  case 0
  then show ?case by (simp add: subgraph_refl)
next
  case (Suc depth)
  show ?case
    unfolding solve_entry_tips.simps by (rule tips_step_subgraph) (rule Suc.IH)
qed

lemma solve_out_tips_subgraph:
  "subgraph (final_graph (solve_out_tips randint depth g ending_nodes)) g"
proof (induction depth arbitrary: g)
  case 0
  then show ?case by (simp add: subgraph_refl)
next
  case (Suc depth)
  show ?case
    unfolding solve_out_tips.simps by (rule tips_step_subgraph) (rule Suc.IH)
qed

text \<open>
  C8. Each simplification operation (\<open>remove_paths\<close>, \<open>select_best_path\<close>,
  \<open>simplify_bubbles\<close>, \<open>solve_entry_tips\<close>, \<open>solve_out_tips\<close>) only removes nodes and
  edges: the nodes and the weighted edges of the graph it leaves behind are nodes and
  weighted edges of the graph it was given, so an edge that survives keeps its weight.
  This holds of the graph a call returns and of the graph a call that raises leaves
  behind, for every generator, every lowest-common-ancestor query and every recursion
  depth.
\<close>

theorem simplification_only_removes:
  "subgraph (remove_paths g path_list delete_entry_node delete_sink_node) g
   \<and> subgraph (final_graph (select_best_path randint g path_list path_length weight_avg_list
                  delete_entry_node delete_sink_node)) g
   \<and> subgraph (final_graph (simplify_bubbles lca randint depth g)) g
   \<and> subgraph (final_graph (solve_entry_tips randint depth g starting_nodes)) g
   \<and> subgraph (final_graph (solve_out_tips randint depth g ending_nodes)) g"
  by (intro conjI remove_paths_subgraph select_best_path_subgraph simplify_bubbles_subgraph
        solve_entry_tips_subgraph solve_out_tips_subgraph)

theorem simplification_only_removes_witness:
  "subgraph (remove_paths two_bubbles [[''A'', ''B'', ''E''], [''A'', ''C'', ''E'']]
                False False) two_bubbles
   \<and> subgraph (final_graph (select_best_path (constant_draw 0) two_bubbles
                  [[''A'', ''B'', ''E''], [''A'', ''C'', ''E'']] [3, 3] [3, 1] False False))
        two_bubbles
   \<and> subgraph (final_graph (simplify_bubbles lowest_common_ancestor (constant_draw 0) 2 two_bubbles))
        two_bubbles
   \<and> subgraph (final_graph (solve_entry_tips (constant_draw 0) 2 two_bubbles
                  (get_starting_nodes two_bubbles))) two_bubbles
   \<and> subgraph (final_graph (solve_out_tips (constant_draw 0) 2 two_bubbles
                  (get_sink_nodes two_bubbles))) two_bubbles
   \<and> simplify_bubbles lowest_common_ancestor (constant_draw 0) 2 two_bubbles =
       Returned \<lparr>nodes = [''A'', ''B'', ''D'', ''E''],
                  edges = [(''A'', ''B'', 1), (''B'', ''D'', 1), (''B'', ''E'', 5)]\<rparr>
   \<and> solve_entry_tips (constant_draw 0) 2 entry_tip (get_starting_nodes entry_tip) =
       Returned \<lparr>nodes = [''A'', ''C'', ''D''],
                  edges = [(''A'', ''C'', 3), (''C'', ''D'', 2)]\<rparr>
   \<and> solve_out_tips (constant_draw 0) 2 out_tip (get_sink_nodes out_tip) =
       Returned \<lparr>nodes = [''A'', ''B'', ''C''],
                  edges = [(''A'', ''B'', 2), (''B'', ''C'', 3)]\<rparr>"
proof -
  have "simplify_bubbles lowest_common_ancestor (constant_draw 0) 2 two_bubbles =
       Returned \<lparr>nodes = [''A'', ''B'', ''D'', ''E''],
                  edges = [(''A'', ''B'', 1), (''B'', ''D'', 1), (''B'', ''E'', 5)]\<rparr>"
    by code_simp
  moreover have "solve_entry_tips (constant_draw 0) 2 entry_tip (get_starting_nodes entry_tip) =
       Returned \<lparr>nodes = [''A'', ''C'', ''D''],
                  edges = [(''A'', ''C'', 3), (''C'', ''D'', 2)]\<rparr>"
    by code_simp
  moreover have "solve_out_tips (constant_draw 0) 2 out_tip (get_sink_nodes out_tip) =
       Returned \<lparr>nodes = [''A'', ''B'', ''C''],
                  edges = [(''A'', ''B'', 2), (''B'', ''C'', 3)]\<rparr>"
    by code_simp
  ultimately show ?thesis
    using simplification_only_removes
      [where g = two_bubbles
         and path_list = "[[''A'', ''B'', ''E''], [''A'', ''C'', ''E'']]"
         and delete_entry_node = False and delete_sink_node = False
         and randint = "constant_draw 0" and path_length = "[3, 3]"
         and weight_avg_list = "[3, 1]" and lca = lowest_common_ancestor and depth = 2
         and starting_nodes = "get_starting_nodes two_bubbles"
         and ending_nodes = "get_sink_nodes two_bubbles"]
    by simp
qed

subsection \<open>The decision rule of the path selector\<close>

lemma sum_list_nonneg_member:
  fixes f :: "'a \<Rightarrow> rat"
  assumes "\<forall>x\<in>set xs. 0 \<le> f x" "y \<in> set xs"
  shows "f y \<le> sum_list (map f xs)"
  using assms
proof (induction xs)
  case Nil
  then show ?case by simp
next
  case (Cons a xs)
  have nn: "0 \<le> sum_list (map f xs)"
    by (intro sum_list_nonneg) (use Cons.prems(1) in auto)
  show ?case
  proof (cases "y = a")
    case True
    then show ?thesis using nn by simp
  next
    case False
    then have "f y \<le> sum_list (map f xs)" using Cons by simp
    moreover have "0 \<le> f a" using Cons.prems(1) by simp
    ultimately show ?thesis by simp
  qed
qed

lemma sum_list_const: "\<forall>x\<in>set xs. x = (c::rat) \<Longrightarrow> sum_list xs = of_nat (length xs) * c"
  by (induction xs) (auto simp: algebra_simps)

lemma variance_all_equal:
  assumes "2 \<le> length xs" "\<forall>x\<in>set xs. x = c"
  shows "variance xs = Inr 0"
proof -
  have n: "length xs \<noteq> 0" using assms(1) by auto
  have m: "sum_list xs / of_nat (length xs) = c"
    using sum_list_const[OF assms(2)] n by simp
  have "sum_list (map (\<lambda>x. (x - c)\<^sup>2) xs) = 0"
    using assms(2) by (induction xs) auto
  then show ?thesis using assms(1) m by (simp add: variance_def)
qed

lemma variance_not_all_equal:
  assumes "2 \<le> length xs" "a \<in> set xs" "b \<in> set xs" "a \<noteq> b"
  shows "\<exists>v. variance xs = Inr v \<and> 0 < v"
proof -
  define m where "m = sum_list xs / of_nat (length xs)"
  obtain y where y: "y \<in> set xs" "y \<noteq> m"
    using assms(2,3,4) by metis
  have pos: "0 < (y - m)\<^sup>2" using y(2) by simp
  have "(y - m)\<^sup>2 \<le> sum_list (map (\<lambda>x. (x - m)\<^sup>2) xs)"
    by (rule sum_list_nonneg_member) (use y(1) in auto)
  then have s: "0 < sum_list (map (\<lambda>x. (x - m)\<^sup>2) xs)" using pos by linarith
  have d: "0 < (of_nat (length xs - 1) :: rat)" using assms(1) by simp
  have "0 < sum_list (map (\<lambda>x. (x - m)\<^sup>2) xs) / of_nat (length xs - 1)"
    using s d by simp
  then show ?thesis using assms(1) by (simp add: variance_def m_def)
qed

text \<open>
  On two values or more the test \<open>stdev > 0\<close> says whether two of them differ; on
  fewer it raises.
\<close>

lemma stdev_positive_iff:
  assumes "2 \<le> length xs"
  shows "stdev_positive xs = Inr (\<exists>a\<in>set xs. \<exists>b\<in>set xs. a \<noteq> b)"
proof (cases "\<exists>a\<in>set xs. \<exists>b\<in>set xs. a \<noteq> b")
  case True
  then obtain a b where "a \<in> set xs" "b \<in> set xs" "a \<noteq> b" by blast
  from variance_not_all_equal[OF assms this] True show ?thesis
    by (auto simp: stdev_positive_def)
next
  case False
  have "xs \<noteq> []" using assms by auto
  then have "\<forall>x\<in>set xs. x = hd xs" using False by auto
  from variance_all_equal[OF assms this] False show ?thesis
    by (simp add: stdev_positive_def)
qed

lemma stdev_positive_short: "length xs < 2 \<Longrightarrow> stdev_positive xs = Inl StatisticsError"
  by (simp add: stdev_positive_def variance_def)

lemma py_max_Max: "xs \<noteq> [] \<Longrightarrow> py_max xs = Inr (Max (set xs))"
  by (cases xs) (simp_all add: py_max_def Max.set_eq_fold[symmetric])

lemma index_of_result:
  "index_of xs x = Inr i \<Longrightarrow> i < length xs \<and> xs ! i = x"
  by (induction xs arbitrary: i) (auto split: if_splits sum.splits)

lemma index_of_error: "index_of xs x = Inl e \<Longrightarrow> e = ValueError \<and> x \<notin> set xs"
  by (induction xs) (auto split: if_splits sum.splits)

lemma index_of_first:
  "i < length xs \<Longrightarrow> xs ! i \<notin> set (take i xs) \<Longrightarrow> index_of xs (xs ! i) = Inr i"
proof (induction xs arbitrary: i)
  case Nil
  then show ?case by simp
next
  case (Cons y ys)
  show ?case
  proof (cases i)
    case 0
    then show ?thesis by simp
  next
    case (Suc k)
    then have "ys ! k \<noteq> y" "ys ! k \<notin> set (take k ys)" "k < length ys"
      using Cons.prems by auto
    then show ?thesis using Suc Cons.IH[of k] by simp
  qed
qed

lemma index_of_first_maximum:
  "first_maximum xs i \<Longrightarrow> index_of xs (Max (set xs)) = Inr i"
  unfolding first_maximum_def by (metis index_of_first)

text \<open>A value strictly greater than every other value of the list is its first maximum.\<close>

lemma strict_maximum_is_first:
  assumes "k < length xs" "\<forall>j<length xs. j \<noteq> k \<longrightarrow> xs ! j < xs ! k"
  shows "first_maximum xs k"
proof -
  have "xs ! k \<in> set xs" using assms(1) by simp
  moreover have "\<forall>x\<in>set xs. x \<le> xs ! k"
  proof
    fix x assume "x \<in> set xs"
    then obtain j where "j < length xs" "xs ! j = x" by (auto simp: in_set_conv_nth)
    then show "x \<le> xs ! k" using assms(2) by (cases "j = k") (auto simp: less_imp_le)
  qed
  ultimately have m: "xs ! k = Max (set xs)"
    by (intro Max_eqI[symmetric]) auto
  have "xs ! k \<notin> set (take k xs)"
  proof
    assume "xs ! k \<in> set (take k xs)"
    then obtain j where "j < k" "xs ! j = xs ! k"
      using assms(1) by (auto simp: in_set_conv_nth)
    then show False using assms by (metis less_irrefl less_trans nat_neq_iff)
  qed
  then show ?thesis using assms(1) m by (simp add: first_maximum_def)
qed

lemma set_delete_nth:
  "set (delete_nth i xs) = (\<lambda>j. xs ! j) ` ({..<length xs} - {i})"
proof -
  have "set (take i xs) = (\<lambda>j. xs ! j) ` {j. j < length xs \<and> j < i}"
    by (force simp: in_set_conv_nth)
  moreover have "set (drop (Suc i) xs) = (\<lambda>j. xs ! j) ` {j. j < length xs \<and> i < j}"
  proof (intro set_eqI iffI)
    fix x assume "x \<in> set (drop (Suc i) xs)"
    then obtain k where "k < length xs - Suc i" "x = xs ! (Suc i + k)"
      by (auto simp: in_set_conv_nth)
    then show "x \<in> (\<lambda>j. xs ! j) ` {j. j < length xs \<and> i < j}"
      by (intro image_eqI[of _ _ "Suc i + k"]) auto
  next
    fix x assume "x \<in> (\<lambda>j. xs ! j) ` {j. j < length xs \<and> i < j}"
    then obtain j where j: "j < length xs" "i < j" "x = xs ! j" by auto
    then have "x = drop (Suc i) xs ! (j - Suc i)" "j - Suc i < length (drop (Suc i) xs)"
      by auto
    then show "x \<in> set (drop (Suc i) xs)" by (metis nth_mem)
  qed
  moreover have "{..<length xs} - {i} =
      {j. j < length xs \<and> j < i} \<union> {j. j < length xs \<and> i < j}"
    by auto
  ultimately show ?thesis
    by (simp add: delete_nth_def image_Un)
qed

lemma length_delete_nth: "i < length xs \<Longrightarrow> length (delete_nth i xs) = length xs - 1"
  by (auto simp: delete_nth_def)

text \<open>What is left of the node list once every path but the one at position \<open>i\<close> is removed.\<close>

lemma nodes_after_removal:
  "set (nodes (remove_paths g (delete_nth i ps) de ds)) =
     set (nodes g) - (\<Union>j\<in>{..<length ps} - {i}. set (removed_nodes de ds (ps ! j)))"
  by (simp add: nodes_remove_paths set_delete_nth)

lemma del_and_remove_in_range:
  "i < length ps \<Longrightarrow>
   del_and_remove g ps i de ds = Returned (remove_paths g (delete_nth i ps) de ds)"
  by (simp add: del_and_remove_def del_at_def)

lemma select_by_weight:
  assumes "stdev_positive ws = Inr True" "first_maximum ws i" "length ws = length ps"
  shows "select_best_path randint g ps ls ws de ds =
           Returned (remove_paths g (delete_nth i ps) de ds)"
proof -
  have ne: "ws \<noteq> []" using assms(2) by (auto simp: first_maximum_def)
  have i: "i < length ps" using assms(2,3) by (simp add: first_maximum_def)
  show ?thesis
    using assms(1) i
    by (simp add: select_best_path_def py_max_Max[OF ne] index_of_first_maximum[OF assms(2)]
          del_and_remove_in_range)
qed

lemma select_by_length:
  assumes "stdev_positive ws = Inr False" "stdev_positive (map rat_of_nat ls) = Inr True"
    "first_maximum ls i" "length ls = length ps"
  shows "select_best_path randint g ps ls ws de ds =
           Returned (remove_paths g (delete_nth i ps) de ds)"
proof -
  have ne: "ls \<noteq> []" using assms(3) by (auto simp: first_maximum_def)
  have i: "i < length ps" using assms(3,4) by (simp add: first_maximum_def)
  show ?thesis
    using assms(1,2) i
    by (simp add: select_best_path_def py_max_Max[OF ne] index_of_first_maximum[OF assms(3)]
          del_and_remove_in_range)
qed

lemma select_tie:
  assumes "stdev_positive ws = Inr False" "stdev_positive (map rat_of_nat ls) = Inr False"
    "length ws = length ps"
    "select_best_path randint g ps ls ws de ds = Returned g'"
  shows "\<exists>i<length ps. g' = remove_paths g (delete_nth i ps) de ds"
proof -
  obtain i where i: "index_of ws (rat_of_int (randint 0 (int (length ps)))) = Inr i"
    using assms(1,2,4) by (auto simp: select_best_path_def split: sum.splits)
  then have "i < length ps" using index_of_result[OF i] assms(3) by simp
  then show ?thesis
    using assms(1,2,4) i by (auto simp: select_best_path_def del_and_remove_in_range)
qed

text \<open>
  C4, as stated, fails, in both of its parts, on what \<open>survives\<close> and \<open>is removed from
  the graph\<close> come to. In \<open>heavy_detour\<close> the bubble at C has the candidates A, B, C
  (mean weight 11/3) and A, C (mean weight 1); the second loses its interior nodes, of
  which it has none, so the graph is returned as it was and the candidate A, C is
  still in it. In \<open>shared_prefix\<close> the bubble at E has the candidates A, B, C, E (mean
  weight 22/3, the maximum), A, B, D, E and A, X, E; B is removed as an interior node of
  the second, and of the candidate kept only A, C, E and the edge from C to E are
  left.
\<close>

theorem select_best_path_counterexample:
  "all_simple_paths heavy_detour ''A'' ''C'' = Inr [[''A'', ''B'', ''C''], [''A'', ''C'']]
   \<and> weights_of heavy_detour [[''A'', ''B'', ''C''], [''A'', ''C'']] = Inr [11 / 3, 1]
   \<and> select_best_path (constant_draw 0) heavy_detour
        [[''A'', ''B'', ''C''], [''A'', ''C'']] [3, 2] [11 / 3, 1] False False
       = Returned heavy_detour
   \<and> all_simple_paths shared_prefix ''A'' ''E''
       = Inr [[''A'', ''B'', ''C'', ''E''], [''A'', ''B'', ''D'', ''E''], [''A'', ''X'', ''E'']]
   \<and> weights_of shared_prefix
        [[''A'', ''B'', ''C'', ''E''], [''A'', ''B'', ''D'', ''E''], [''A'', ''X'', ''E'']]
       = Inr [22 / 3, 2, 1]
   \<and> select_best_path (constant_draw 0) shared_prefix
        [[''A'', ''B'', ''C'', ''E''], [''A'', ''B'', ''D'', ''E''], [''A'', ''X'', ''E'']]
        [4, 4, 3] [22 / 3, 2, 1] False False
       = Returned \<lparr>nodes = [''A'', ''C'', ''E''], edges = [(''C'', ''E'', 9)]\<rparr>"
  by code_simp

text \<open>
  C4, amended. A call of \<open>select_best_path\<close> with at least two candidates, each with its
  mean weight and its length. If the standard deviation of the mean weights is greater
  than zero, the first candidate of maximum mean weight is kept, that is, taken off the
  list handed to \<open>remove_paths\<close>, and every other candidate loses the nodes the two flags
  select in it (its interior nodes, its first node as well under \<open>delete_entry_node\<close>,
  its last as well under \<open>delete_sink_node\<close>); otherwise, if the standard deviation of
  the lengths is greater than zero, the same holds with the maximum length. The nodes
  left are those of the graph given minus the selected nodes of the other candidates:
  a candidate without selected nodes stays, and a node the kept candidate shares with
  the selected nodes of another goes. The last two parts say that a candidate whose
  value is strictly greater than every other's is the first maximum.
\<close>

theorem select_best_path_keeps_maximum:
  assumes "2 \<le> length path_list"
    and "length weight_avg_list = length path_list"
    and "length path_length = length path_list"
  shows
    "(stdev_positive weight_avg_list = Inr True \<and> first_maximum weight_avg_list i \<longrightarrow>
        select_best_path randint g path_list path_length weight_avg_list
            delete_entry_node delete_sink_node
          = Returned (remove_paths g (delete_nth i path_list) delete_entry_node delete_sink_node)
      \<and> set (nodes (remove_paths g (delete_nth i path_list) delete_entry_node delete_sink_node))
          = set (nodes g) - (\<Union>j\<in>{..<length path_list} - {i}.
                set (removed_nodes delete_entry_node delete_sink_node (path_list ! j))))
   \<and> (stdev_positive weight_avg_list = Inr False
        \<and> stdev_positive (map rat_of_nat path_length) = Inr True
        \<and> first_maximum path_length i \<longrightarrow>
        select_best_path randint g path_list path_length weight_avg_list
            delete_entry_node delete_sink_node
          = Returned (remove_paths g (delete_nth i path_list) delete_entry_node delete_sink_node)
      \<and> set (nodes (remove_paths g (delete_nth i path_list) delete_entry_node delete_sink_node))
          = set (nodes g) - (\<Union>j\<in>{..<length path_list} - {i}.
                set (removed_nodes delete_entry_node delete_sink_node (path_list ! j))))
   \<and> (i < length path_list
        \<and> (\<forall>j<length path_list. j \<noteq> i \<longrightarrow> weight_avg_list ! j < weight_avg_list ! i) \<longrightarrow>
        first_maximum weight_avg_list i)
   \<and> (i < length path_list
        \<and> (\<forall>j<length path_list. j \<noteq> i \<longrightarrow> path_length ! j < path_length ! i) \<longrightarrow>
        first_maximum path_length i)"
proof -
  have "first_maximum weight_avg_list i"
    if "i < length path_list"
      "\<forall>j<length path_list. j \<noteq> i \<longrightarrow> weight_avg_list ! j < weight_avg_list ! i"
    using that assms(2) by (intro strict_maximum_is_first) simp_all
  moreover have "first_maximum path_length i"
    if "i < length path_list"
      "\<forall>j<length path_list. j \<noteq> i \<longrightarrow> path_length ! j < path_length ! i"
    using that assms(3) by (intro strict_maximum_is_first) simp_all
  ultimately show ?thesis
    using assms(2,3) select_by_weight select_by_length nodes_after_removal by auto
qed

theorem select_best_path_keeps_maximum_witness:
  "select_best_path (constant_draw 0) three_paths three_candidates [3, 3, 3] [5, 5, 9]
       False False
     = Returned (remove_paths three_paths (delete_nth 2 three_candidates) False False)
   \<and> remove_paths three_paths (delete_nth 2 three_candidates) False False
     = \<lparr>nodes = [''A'', ''E'', ''D''], edges = [(''A'', ''D'', 2), (''D'', ''E'', 2)]\<rparr>
   \<and> select_best_path (constant_draw 0) three_paths three_candidates [3, 5, 3] [4, 4, 4]
       False False
     = Returned (remove_paths three_paths (delete_nth 1 three_candidates) False False)
   \<and> remove_paths three_paths (delete_nth 1 three_candidates) False False
     = \<lparr>nodes = [''A'', ''E'', ''C''], edges = [(''A'', ''C'', 2), (''C'', ''E'', 2)]\<rparr>"
proof -
  have len: "2 \<le> length three_candidates" "length [5, 5, 9 :: rat] = length three_candidates"
    "length [4, 4, 4 :: rat] = length three_candidates"
    "length [3, 3, 3 :: nat] = length three_candidates"
    "length [3, 5, 3 :: nat] = length three_candidates"
    by (simp_all add: three_candidates_def)
  have w: "stdev_positive [5, 5, 9] = Inr True \<and> first_maximum [5, 5, 9 :: rat] 2"
    by code_simp
  have l: "stdev_positive [4, 4, 4] = Inr False
      \<and> stdev_positive (map rat_of_nat [3, 5, 3]) = Inr True
      \<and> first_maximum [3, 5, 3 :: nat] 1"
    by code_simp
  have r2: "remove_paths three_paths (delete_nth 2 three_candidates) False False
     = \<lparr>nodes = [''A'', ''E'', ''D''], edges = [(''A'', ''D'', 2), (''D'', ''E'', 2)]\<rparr>"
    by code_simp
  have r1: "remove_paths three_paths (delete_nth 1 three_candidates) False False
     = \<lparr>nodes = [''A'', ''E'', ''C''], edges = [(''A'', ''C'', 2), (''C'', ''E'', 2)]\<rparr>"
    by code_simp
  show ?thesis
    using select_best_path_keeps_maximum [OF len(1) len(2) len(4),
        where i = 2 and randint = "constant_draw 0" and g = three_paths
          and delete_entry_node = False and delete_sink_node = False]
      select_best_path_keeps_maximum [OF len(1) len(3) len(5),
        where i = 1 and randint = "constant_draw 0" and g = three_paths
          and delete_entry_node = False and delete_sink_node = False]
      w l r1 r2
    by simp
qed

subsection \<open>The tie-break of the path selector\<close>

lemma all_equal_not_positive:
  assumes "2 \<le> length xs" "\<forall>x\<in>set xs. x = hd xs"
  shows "stdev_positive xs = Inr False"
proof -
  have "\<not> (\<exists>a\<in>set xs. \<exists>b\<in>set xs. a \<noteq> b)" using assms(2) by metis
  then show ?thesis using stdev_positive_iff[OF assms(1)] by simp
qed

lemma index_of_absent: "x \<notin> set xs \<Longrightarrow> index_of xs x = Inl ValueError"
  by (induction xs) auto

text \<open>
  On a tie of weights and of lengths the call raises \<open>ValueError\<close> unless the drawn
  integer is one of the mean weights; nothing is removed.
\<close>

lemma tie_raises_unless_drawn:
  assumes "stdev_positive ws = Inr False" "stdev_positive (map rat_of_nat ls) = Inr False"
    and "rat_of_int (randint 0 (int (length ps))) \<notin> set ws"
  shows "select_best_path randint g ps ls ws de ds = Raised ValueError g"
  using assms(1,2) index_of_absent[OF assms(3)] by (simp add: select_best_path_def)

text \<open>
  Mean weights of a graph built from k-mer counts are at least 1, and the generator
  seeded with 9001 draws 0 from up to 14 candidates: there every tie raises.
\<close>

lemma tie_raises_on_counts:
  assumes "2 \<le> length ws" "2 \<le> length ls"
    and "\<forall>w\<in>set ws. w = hd ws" "\<forall>l\<in>set ls. l = hd ls"
    and "\<forall>w\<in>set ws. 1 \<le> w"
    and "randint 0 (int (length ps)) = 0"
  shows "select_best_path randint g ps ls ws de ds = Raised ValueError g"
proof -
  have w: "stdev_positive ws = Inr False"
    using assms(1,3) by (rule all_equal_not_positive)
  have "\<forall>x\<in>set (map rat_of_nat ls). x = hd (map rat_of_nat ls)"
    using assms(2,4) by (cases ls) auto
  then have l: "stdev_positive (map rat_of_nat ls) = Inr False"
    using assms(2) by (intro all_equal_not_positive) auto
  have "rat_of_int (randint 0 (int (length ps))) \<notin> set ws"
    using assms(5,6) by auto
  then show ?thesis by (rule tie_raises_unless_drawn[OF w l])
qed

lemma three_halves_not_drawn: "rat_of_int z \<noteq> 3 / 2"
proof
  assume "rat_of_int z = 3 / 2"
  then have "rat_of_int (2 * z) = rat_of_int 3" by simp
  then have "2 * z = 3" by (simp only: of_int_eq_iff)
  then show False by presburger
qed

text \<open>
  C1 fails on the code: on a full tie the third branch looks the drawn integer up among
  the mean weights (\<open>weight_avg_list.index\<close> of the draw) where it means to take the
  draw as a position, and raises \<open>ValueError\<close> when the integer is none of the weights.
  In \<open>diamond\<close> the bubble at D has the two candidates A, B, D and A, C, D, each of
  three nodes and of mean weight 3/2, which no integer equals: whatever the generator
  draws, the selector, \<open>solve_bubble\<close> and \<open>simplify_bubbles\<close> raise and the graph keeps
  both candidates, where the claim has one candidate removed and no error.
\<close>

theorem tie_break_raises:
  "all_simple_paths diamond ''A'' ''D'' = Inr [[''A'', ''B'', ''D''], [''A'', ''C'', ''D'']]
   \<and> weights_of diamond [[''A'', ''B'', ''D''], [''A'', ''C'', ''D'']] = Inr [3 / 2, 3 / 2]
   \<and> select_best_path randint diamond
        [[''A'', ''B'', ''D''], [''A'', ''C'', ''D'']] [3, 3] [3 / 2, 3 / 2] False False
       = Raised ValueError diamond
   \<and> solve_bubble randint diamond (Some ''A'') ''D'' = Raised ValueError diamond
   \<and> simplify_bubbles lowest_common_ancestor randint (Suc depth) diamond
       = Raised ValueError diamond"
proof -
  have paths: "all_simple_paths diamond ''A'' ''D''
      = Inr [[''A'', ''B'', ''D''], [''A'', ''C'', ''D'']]"
    by code_simp
  have weights: "weights_of diamond [[''A'', ''B'', ''D''], [''A'', ''C'', ''D'']]
      = Inr [3 / 2, 3 / 2]"
    by code_simp
  have tie: "stdev_positive [3 / 2, 3 / 2] = Inr False"
    "stdev_positive (map rat_of_nat [3, 3]) = Inr False"
    by code_simp+
  have "rat_of_int (randint 0 (int (length [[''A'', ''B'', ''D''], [''A'', ''C'', ''D'']])))
      \<notin> set [3 / 2, 3 / 2]"
    using three_halves_not_drawn by simp
  then have sel: "select_best_path randint diamond
        [[''A'', ''B'', ''D''], [''A'', ''C'', ''D'']] [3, 3] [3 / 2, 3 / 2] False False
       = Raised ValueError diamond"
    by (rule tie_raises_unless_drawn[OF tie])
  have lens: "map length [[''A'', ''B'', ''D''], [''A'', ''C'', ''D'']] = [3, 3]"
    by simp
  have bubble: "solve_bubble randint diamond (Some ''A'') ''D'' = Raised ValueError diamond"
    unfolding solve_bubble_def option.case paths sum.case weights lens by (rule sel)
  have scan: "loop_n lowest_common_ancestor diamond (nodes diamond)
        \<lparr>bubble = False, ancestor_node = None, noeud_n = None\<rparr>
      = Inr \<lparr>bubble = True, ancestor_node = Some ''A'', noeud_n = Some ''D''\<rparr>"
    by code_simp
  have "simplify_bubbles lowest_common_ancestor randint (Suc depth) diamond
       = Raised ValueError diamond"
    by (simp add: scan bubble)
  then show ?thesis using paths weights sel bubble by simp
qed

subsection \<open>A tip with a single candidate\<close>

lemma entry_candidates_lengths:
  "entry_candidates g starts n (ps0, ls0, ws0) = Inr (ps, ls, ws) \<Longrightarrow>
   length ws0 = length ps0 \<Longrightarrow> length ws = length ps"
proof (induction starts arbitrary: ps0 ls0 ws0)
  case Nil
  then show ?case by simp
next
  case (Cons s starts)
  then show ?case
    by (auto split: sum.splits bool.splits list.splits)
qed

lemma out_candidates_lengths:
  "out_candidates g sinks n (ps0, ls0, ws0) = Inr (ps, ls, ws) \<Longrightarrow>
   length ws0 = length ps0 \<Longrightarrow> length ws = length ps"
proof (induction sinks arbitrary: ps0 ls0 ws0)
  case Nil
  then show ?case by simp
next
  case (Cons s sinks)
  then show ?case
    by (auto split: sum.splits bool.splits list.splits)
qed

text \<open>One candidate is recorded per starting node (ending node) that has a path.\<close>

lemma entry_candidates_count:
  "entry_candidates g starts n (ps0, ls0, ws0) = Inr (ps, ls, ws) \<Longrightarrow>
   length ps = length ps0 + length (filter (\<lambda>s. has_path g s n = Inr True) starts)"
proof (induction starts arbitrary: ps0 ls0 ws0)
  case Nil
  then show ?case by simp
next
  case (Cons s starts)
  then show ?case
    by (fastforce split: sum.splits bool.splits list.splits)
qed

lemma out_candidates_count:
  "out_candidates g sinks n (ps0, ls0, ws0) = Inr (ps, ls, ws) \<Longrightarrow>
   length ps = length ps0 + length (filter (\<lambda>s. has_path g n s = Inr True) sinks)"
proof (induction sinks arbitrary: ps0 ls0 ws0)
  case Nil
  then show ?case by simp
next
  case (Cons s sinks)
  then show ?case
    by (fastforce split: sum.splits bool.splits list.splits)
qed

text \<open>A scan that finds candidates found them at a node with more than one neighbour.\<close>

lemma scan_entry_tips_found:
  "scan_entry_tips g starts ns = Inr (Some (ps, ls, ws)) \<Longrightarrow>
   \<exists>n\<in>set ns. 1 < length (predecessors g n)
      \<and> entry_candidates g starts n ([], [], []) = Inr (ps, ls, ws)"
proof (induction ns)
  case Nil
  then show ?case by simp
next
  case (Cons n ns)
  then show ?case
    by (auto split: if_splits sum.splits prod.splits)
qed

lemma scan_out_tips_found:
  "scan_out_tips g sinks ns = Inr (Some (ps, ls, ws)) \<Longrightarrow>
   \<exists>n\<in>set ns. 1 < length (successors g n)
      \<and> out_candidates g sinks n ([], [], []) = Inr (ps, ls, ws)"
proof (induction ns)
  case Nil
  then show ?case by simp
next
  case (Cons n ns)
  then show ?case
    by (auto split: if_splits sum.splits prod.splits)
qed

lemma select_single:
  "length ws = 1 \<Longrightarrow> select_best_path randint g ps ls ws de ds = Raised StatisticsError g"
  by (simp add: select_best_path_def stdev_positive_def variance_def)

lemma entry_single:
  assumes "scan_entry_tips g starts (nodes g) = Inr (Some (ps, ls, ws))" "length ps = 1"
  shows "solve_entry_tips randint (Suc depth) g starts = Raised StatisticsError g"
proof -
  obtain n where "n \<in> set (nodes g)"
    "entry_candidates g starts n ([], [], []) = Inr (ps, ls, ws)"
    using scan_entry_tips_found[OF assms(1)] by blast
  then have "nodes g \<noteq> []" "length ws = 1"
    using entry_candidates_lengths[of g starts n "[]" "[]" "[]" ps ls ws] assms(2) by auto
  then show ?thesis using assms(1) by (simp add: select_single)
qed

lemma out_single:
  assumes "scan_out_tips g sinks (nodes g) = Inr (Some (ps, ls, ws))" "length ps = 1"
  shows "solve_out_tips randint (Suc depth) g sinks = Raised StatisticsError g"
proof -
  obtain n where "n \<in> set (nodes g)"
    "out_candidates g sinks n ([], [], []) = Inr (ps, ls, ws)"
    using scan_out_tips_found[OF assms(1)] by blast
  then have "nodes g \<noteq> []" "length ws = 1"
    using out_candidates_lengths[of g sinks n "[]" "[]" "[]" ps ls ws] assms(2) by auto
  then show ?thesis using assms(1) by (simp add: select_single)
qed

text \<open>
  C10. When the scan of \<open>solve_entry_tips\<close> (of \<open>solve_out_tips\<close>) stops at a node with
  more than one predecessor (successor) with exactly one candidate path recorded, the
  call raises \<open>StatisticsError\<close>, the exception of the standard deviation of fewer
  than two values, and the graph is the one the call was given: nothing was removed. By
  \<open>entry_candidates_count\<close> and \<open>out_candidates_count\<close> one candidate recorded means one
  starting node that reaches the node (one ending node that the node reaches). The
  call is one the interpreter still admits (depth \<open>Suc depth\<close>).
\<close>

theorem single_candidate_raises:
  "(scan_entry_tips g starting_nodes (nodes g)
        = Inr (Some (path_list, path_length, weight_avg_list))
      \<and> length path_list = 1 \<longrightarrow>
      solve_entry_tips randint (Suc depth) g starting_nodes = Raised StatisticsError g)
   \<and> (scan_out_tips g ending_nodes (nodes g)
        = Inr (Some (path_list, path_length, weight_avg_list))
      \<and> length path_list = 1 \<longrightarrow>
      solve_out_tips randint (Suc depth) g ending_nodes = Raised StatisticsError g)"
  using entry_single out_single by blast

theorem single_candidate_raises_witness:
  "scan_entry_tips diamond (get_starting_nodes diamond) (nodes diamond)
     = Inr (Some ([[''A'', ''B'', ''D'']], [3], [3 / 2]))
   \<and> solve_entry_tips (constant_draw 0) (Suc 0) diamond (get_starting_nodes diamond)
     = Raised StatisticsError diamond
   \<and> scan_out_tips diamond (get_sink_nodes diamond) (nodes diamond)
     = Inr (Some ([[''A'', ''B'', ''D'']], [3], [3 / 2]))
   \<and> solve_out_tips (constant_draw 0) (Suc 0) diamond (get_sink_nodes diamond)
     = Raised StatisticsError diamond"
proof -
  have scans: "scan_entry_tips diamond (get_starting_nodes diamond) (nodes diamond)
       = Inr (Some ([[''A'', ''B'', ''D'']], [3], [3 / 2]))"
    "scan_out_tips diamond (get_sink_nodes diamond) (nodes diamond)
       = Inr (Some ([[''A'', ''B'', ''D'']], [3], [3 / 2]))"
    by code_simp+
  have one: "length [[''A'', ''B'', ''D'']] = 1" by simp
  show ?thesis
    using single_candidate_raises
      [where g = diamond and starting_nodes = "get_starting_nodes diamond"
         and ending_nodes = "get_sink_nodes diamond"
         and path_list = "[[''A'', ''B'', ''D'']]" and path_length = "[3]"
         and weight_avg_list = "[3 / 2]" and randint = "constant_draw 0" and depth = 0]
      scans one
    by simp
qed

subsection \<open>One edge per k-mer\<close>

lemma add_kmer_simp:
  "add_kmer (kmer, count) g = add_edge (butlast kmer) (tl kmer) count g"
  by (simp add: add_kmer_def)

lemma set_weight_new:
  "(u, v) \<notin> (\<lambda>(a, b, c). (a, b)) ` set es \<Longrightarrow> set_weight u v w es = es @ [(u, v, w)]"
  by (induction es) auto

lemma edges_add_edge: "edges (add_edge u v w g) = set_weight u v w (edges g)"
  by (simp add: add_edge_def add_node_def Let_def)

lemma nodes_add_edge: "set (nodes (add_edge u v w g)) = set (nodes g) \<union> {u, v}"
  by (auto simp: add_edge_def add_node_def Let_def)

lemma distinct_nodes_add_edge: "distinct (nodes g) \<Longrightarrow> distinct (nodes (add_edge u v w g))"
  by (auto simp: add_edge_def add_node_def Let_def)

text \<open>A string of two characters or more is determined by its prefix and its suffix.\<close>

lemma kmer_ends_inj:
  assumes "2 \<le> length k" "2 \<le> length k'" "butlast k = butlast k'" "tl k = tl k'"
  shows "k = k'"
proof -
  have nek: "k \<noteq> [] \<and> tl k \<noteq> []" using assms(1) by (cases k) auto
  have nek': "k' \<noteq> [] \<and> tl k' \<noteq> []" using assms(2) by (cases k') auto
  have "last k = last (tl k)" "last k' = last (tl k')"
    using nek nek' by (simp_all add: last_tl)
  then have "last k = last k'" using assms(4) by simp
  then have "butlast k @ [last k] = butlast k' @ [last k']" using assms(3) by simp
  then show ?thesis using nek nek' by simp
qed

lemma fold_add_kmer_edges:
  assumes "distinct (map fst kd)" "\<forall>k\<in>set (map fst kd). 2 \<le> length k"
    "\<forall>(u, v, w)\<in>set (edges g0). \<forall>k\<in>set (map fst kd). (u, v) \<noteq> (butlast k, tl k)"
  shows "edges (fold add_kmer kd g0) = edges g0 @ map kmer_edge kd"
  using assms
proof (induction kd arbitrary: g0)
  case Nil
  then show ?case by simp
next
  case (Cons kc kd)
  obtain k c where kc: "kc = (k, c)" by (cases kc) auto
  let ?g = "add_edge (butlast k) (tl k) c g0"
  have new: "(butlast k, tl k) \<notin> (\<lambda>(a, b, c). (a, b)) ` set (edges g0)"
    using Cons.prems(3) kc by fastforce
  have e: "edges ?g = edges g0 @ [(butlast k, tl k, c)]"
    by (simp add: edges_add_edge set_weight_new[OF new])
  have k2: "2 \<le> length k" using Cons.prems(2) kc by simp
  have fresh: "\<forall>k'\<in>set (map fst kd). (butlast k, tl k) \<noteq> (butlast k', tl k')"
  proof
    fix k' assume k': "k' \<in> set (map fst kd)"
    then have "k \<noteq> k'" "2 \<le> length k'" using Cons.prems(1,2) kc by auto
    then show "(butlast k, tl k) \<noteq> (butlast k', tl k')"
      using kmer_ends_inj[OF k2, of k'] by auto
  qed
  have "\<forall>(u, v, w)\<in>set (edges ?g). \<forall>k'\<in>set (map fst kd). (u, v) \<noteq> (butlast k', tl k')"
    unfolding e using Cons.prems(3) fresh by auto
  moreover have "distinct (map fst kd)" "\<forall>k\<in>set (map fst kd). 2 \<le> length k"
    using Cons.prems(1,2) by auto
  ultimately have "edges (fold add_kmer kd ?g) = edges ?g @ map kmer_edge kd"
    by (intro Cons.IH)
  then show ?case
    by (simp add: kc e add_kmer_simp kmer_edge_def)
qed

lemma fold_add_kmer_nodes:
  "set (nodes (fold add_kmer kd g0)) =
     set (nodes g0) \<union> (\<Union>(kmer, count)\<in>set kd. {butlast kmer, tl kmer})"
proof (induction kd arbitrary: g0)
  case Nil
  then show ?case by simp
next
  case (Cons kc kd)
  show ?case
    by (cases kc) (auto simp: Cons.IH add_kmer_simp nodes_add_edge)
qed

lemma fold_add_kmer_distinct:
  "distinct (nodes g0) \<Longrightarrow> distinct (nodes (fold add_kmer kd g0))"
proof (induction kd arbitrary: g0)
  case Nil
  then show ?case by simp
next
  case (Cons kc kd)
  show ?case
    by (cases kc)
      (auto simp: add_kmer_simp intro!: Cons.IH distinct_nodes_add_edge Cons.prems)
qed

text \<open>
  C7, as stated, fails for k = 1: the prefix and the suffix of every 1-mer are the empty
  string, so all 1-mers share the one edge from the empty node to itself, and its
  weight is the count of the k-mer added last.
\<close>

theorem build_graph_counterexample:
  "build_graph [(''A'', 1), (''C'', 2)] = \<lparr>nodes = [''''], edges = [('''', '''', 2)]\<rparr>"
  by code_simp

text \<open>
  C7, amended. For every mapping from distinct k-mer strings of length at least two to
  their counts, \<open>build_graph\<close> returns a graph with exactly one edge per k-mer, in the
  order of the mapping, from the prefix of the k-mer to its suffix and weighted with its
  count; the nodes are the prefixes and suffixes, each once. A k-mer whose prefix equals
  its suffix gives a self-loop like any other edge.
\<close>

theorem build_graph_one_edge_per_kmer:
  assumes "distinct (map fst kmer_dict)"
    and "\<forall>kmer\<in>set (map fst kmer_dict). 2 \<le> length kmer"
  shows "edges (build_graph kmer_dict) = map kmer_edge kmer_dict
       \<and> set (nodes (build_graph kmer_dict)) =
           (\<Union>(kmer, count)\<in>set kmer_dict. {butlast kmer, tl kmer})
       \<and> distinct (nodes (build_graph kmer_dict))"
  using fold_add_kmer_edges[OF assms, of empty_graph]
    fold_add_kmer_nodes[of kmer_dict empty_graph]
    fold_add_kmer_distinct[of empty_graph kmer_dict]
  by (simp add: build_graph_def empty_graph_def)

theorem build_graph_one_edge_per_kmer_witness:
  "edges (build_graph [(''ACG'', 3), (''CGT'', 1), (''AAA'', 2)])
     = [(''AC'', ''CG'', 3), (''CG'', ''GT'', 1), (''AA'', ''AA'', 2)]
   \<and> set (nodes (build_graph [(''ACG'', 3), (''CGT'', 1), (''AAA'', 2)]))
     = {''AC'', ''CG'', ''GT'', ''AA''}
   \<and> distinct (nodes (build_graph [(''ACG'', 3), (''CGT'', 1), (''AAA'', 2)]))"
proof -
  have d: "distinct (map fst [(''ACG'', 3 :: int), (''CGT'', 1), (''AAA'', 2)])"
    by simp
  have l: "\<forall>kmer\<in>set (map fst [(''ACG'', 3 :: int), (''CGT'', 1), (''AAA'', 2)]).
             2 \<le> length kmer"
    by simp
  show ?thesis
    using build_graph_one_edge_per_kmer[OF d l]
    by (simp add: kmer_edge_def insert_commute)
qed

subsection \<open>K-mers of a read shorter than k\<close>

text \<open>
  Where \<open>1 \<le> k \<le> len(read) + 1\<close> the slice bound is not negative and \<open>cut_kmer\<close>
  yields the \<open>len(read) - k + 1\<close> substrings of length \<open>k\<close>, from left to right.
\<close>

lemma slice_bound_nonneg: "0 \<le> i \<Longrightarrow> nat i \<le> n \<Longrightarrow> slice_bound n i = nat i"
  by (simp add: slice_bound_def)

lemma py_slice_window:
  assumes "0 \<le> lo" "lo \<le> hi" "nat hi \<le> length xs"
  shows "py_slice xs lo hi = take (nat hi - nat lo) (drop (nat lo) xs)"
proof -
  have "slice_bound (length xs) lo = nat lo" "slice_bound (length xs) hi = nat hi"
    using assms by (simp_all add: slice_bound_nonneg)
  then show ?thesis by (simp add: py_slice_def Let_def)
qed

lemma cut_kmer_in_range:
  assumes "1 \<le> k" "k \<le> int (length read) + 1"
  shows "cut_kmer read k = map (\<lambda>r. take (nat k) (drop r read)) [0 ..< length read + 1 - nat k]
       \<and> length (cut_kmer read k) = length read + 1 - nat k
       \<and> (\<forall>kmer\<in>set (cut_kmer read k). length kmer = nat k)"
proof -
  define n where "n = length read + 1 - nat k"
  have n: "n \<le> length read" "int n = int (length read) - k + 1"
    using assms by (auto simp: n_def)
  have "py_slice read 0 (int n) = take n read"
    using py_slice_window[of 0 "int n" read] n(1) by simp
  then have "py_slice read 0 (int (length read) - k + 1) = take n read"
    by (simp only: n(2))
  then have prefix: "length (py_slice read 0 (int (length read) - k + 1)) = n"
    using n(1) by simp
  have each: "py_slice read (int r) (int r + k) = take (nat k) (drop r read)" if "r < n" for r
  proof -
    have "r + nat k \<le> length read" using that assms by (simp add: n_def)
    moreover have "nat (int r + k) = r + nat k" using assms by (simp add: nat_add_distrib)
    ultimately show ?thesis
      using py_slice_window[of "int r" "int r + k" read] assms by simp
  qed
  have len: "length (take (nat k) (drop r read)) = nat k" if "r < n" for r
  proof -
    have "r + nat k \<le> length read" using that assms by (simp add: n_def)
    then show ?thesis by simp
  qed
  have eq: "cut_kmer read k = map (\<lambda>r. take (nat k) (drop r read)) [0 ..< n]"
    unfolding cut_kmer_def prefix by (rule map_cong) (simp_all add: each)
  have "\<forall>kmer\<in>set (map (\<lambda>r. take (nat k) (drop r read)) [0 ..< n]). length kmer = nat k"
    using len by auto
  then show ?thesis using eq by (simp add: n_def)
qed

text \<open>
  C3 fails on the code where \<open>k\<close> exceeds \<open>len(read) + 1\<close>: the bound
  \<open>len(read) - k + 1\<close> is negative, the prefix slice then drops characters from the end
  instead of being empty, and the loop yields substrings shorter than \<open>k\<close>. For the
  read AB and k = 4 the claim gives no k-mer; the code yields AB. For ABCDE and k = 7 it
  yields four strings.
\<close>

theorem cut_kmer_short_read:
  "cut_kmer ''AB'' 4 = [''AB'']
   \<and> cut_kmer ''ABCDE'' 7 = [''ABCDE'', ''BCDE'', ''CDE'', ''DE'']
   \<and> cut_kmer ''ABCDE'' 6 = []"
  by code_simp

subsection \<open>Contigs of a pair joined by two paths\<close>

text \<open>
  C2 fails on the code when a source and a sink are joined by more than one simple
  path: \<open>seq\<close> is emptied once per pair, not once per path, so the contig of the second
  path starts with the whole contig of the first. In \<open>diamond\<close> the paths from A to D
  are A, B, D and A, C, D; the claim gives the contigs ABD and ACD, the code gives ABD
  and ABDACD.
\<close>

theorem get_contigs_accumulates:
  "get_starting_nodes diamond = [''A''] \<and> get_sink_nodes diamond = [''D'']
   \<and> all_simple_paths diamond ''A'' ''D''
       = Inr [[''A'', ''B'', ''D''], [''A'', ''C'', ''D'']]
   \<and> get_contigs diamond (get_starting_nodes diamond) (get_sink_nodes diamond)
       = Inr [(''ABD'', 3), (''ABDACD'', 6)]
   \<and> map contig_of_path [[''A'', ''B'', ''D''], [''A'', ''C'', ''D'']]
       = [(''ABD'', 3), (''ACD'', 3)]"
  by code_simp

subsection \<open>Mean weight over a path with a chord\<close>

text \<open>
  C6 fails on the code when two nodes of a candidate path are joined by an edge that is
  not on the path: \<open>path_average_weight\<close> averages over every edge of the subgraph
  induced by the nodes of the path. In \<open>triangle\<close> the bubble simplifier stops at C with
  ancestor A and presents the paths A, B, C and A, C; the edges on A, B, C have weights
  1 and 1, mean 1, and the code annotates the path with 2, the mean of 1, 1 and the
  chord's 4.
\<close>

theorem path_average_weight_counts_chord:
  "loop_n lowest_common_ancestor triangle (nodes triangle)
       \<lparr>bubble = False, ancestor_node = None, noeud_n = None\<rparr>
     = Inr \<lparr>bubble = True, ancestor_node = Some ''A'', noeud_n = Some ''C''\<rparr>
   \<and> all_simple_paths triangle ''A'' ''C'' = Inr [[''A'', ''B'', ''C''], [''A'', ''C'']]
   \<and> path_average_weight triangle [''A'', ''B'', ''C''] = Inr 2
   \<and> mean_over_path_edges triangle [''A'', ''B'', ''C''] = Inr 1"
  by code_simp

subsection \<open>Which bubble a scan resolves\<close>

text \<open>
  C5 fails on the code when the first qualifying node is followed in scan order by
  another node with more than one predecessor: the \<open>break\<close> leaves the innermost loop
  only, the scan goes on, and the later node overwrites \<open>noeud_n\<close> and
  \<open>ancestor_node\<close>. In \<open>two_bubbles\<close> the nodes are scanned in the order A, B, C, D, E
  with 0, 1, 1, 2, 2 predecessors; D is the first qualifying node (its predecessors B
  and C have the lowest common ancestor A), yet the scan ends with \<open>noeud_n\<close> = E and the
  bubble resolved is the one at E: C is removed and B stays. Resolving the bubble at D
  removes B and keeps C.
\<close>

theorem simplify_bubbles_resolves_later_node:
  "nodes two_bubbles = [''A'', ''B'', ''C'', ''D'', ''E'']
   \<and> map (\<lambda>n. length (predecessors two_bubbles n)) (nodes two_bubbles) = [0, 1, 1, 2, 2]
   \<and> predecessors two_bubbles ''D'' = [''B'', ''C'']
   \<and> lowest_common_ancestor two_bubbles ''B'' ''C'' = Inr (Some ''A'')
   \<and> loop_n lowest_common_ancestor two_bubbles (nodes two_bubbles)
        \<lparr>bubble = False, ancestor_node = None, noeud_n = None\<rparr>
       = Inr \<lparr>bubble = True, ancestor_node = Some ''A'', noeud_n = Some ''E''\<rparr>
   \<and> simplify_bubbles lowest_common_ancestor randint (Suc (Suc depth)) two_bubbles
       = Returned \<lparr>nodes = [''A'', ''B'', ''D'', ''E''],
                    edges = [(''A'', ''B'', 1), (''B'', ''D'', 1), (''B'', ''E'', 5)]\<rparr>
   \<and> solve_bubble randint two_bubbles (Some ''A'') ''D''
       = Returned \<lparr>nodes = [''A'', ''C'', ''D'', ''E''],
                    edges = [(''A'', ''C'', 1), (''C'', ''D'', 5), (''C'', ''E'', 1)]\<rparr>"
  by code_simp

text \<open>
  A resolved bubble need not change the graph: in \<open>heavy_detour\<close> the candidate to
  remove has no interior node, every rescan finds the same bubble, and the recursion
  ends only when the interpreter refuses a further call.
\<close>

lemma simplify_bubbles_never_settles:
  "simplify_bubbles lowest_common_ancestor randint depth heavy_detour
     = Raised RecursionError heavy_detour"
proof (induction depth)
  case 0
  then show ?case by simp
next
  case (Suc depth)
  have scan: "loop_n lowest_common_ancestor heavy_detour (nodes heavy_detour)
        \<lparr>bubble = False, ancestor_node = None, noeud_n = None\<rparr>
      = Inr \<lparr>bubble = True, ancestor_node = Some ''A'', noeud_n = Some ''C''\<rparr>"
    by code_simp
  have step: "solve_bubble randint heavy_detour (Some ''A'') ''C'' = Returned heavy_detour"
    by code_simp
  show ?case
    by (simp add: scan step Suc.IH)
qed

subsection \<open>A scan that finds nothing\<close>

lemma loop_j_none:
  "\<forall>j\<in>set js. lca g i j = Inr None \<Longrightarrow>
   \<exists>vars'. loop_j lca g i js vars = Inr vars' \<and> bubble vars' = bubble vars"
proof (induction js arbitrary: vars)
  case Nil
  then show ?case by simp
next
  case (Cons j js)
  have "\<forall>j\<in>set js. lca g i j = Inr None" using Cons.prems by simp
  then obtain v where "loop_j lca g i js (vars\<lparr>ancestor_node := None\<rparr>) = Inr v"
    "bubble v = bubble (vars\<lparr>ancestor_node := None\<rparr>)"
    using Cons.IH by blast
  then show ?case using Cons.prems by simp
qed

lemma loop_i_none:
  "\<forall>(i, j)\<in>set (later_pairs ps). lca g i j = Inr None \<Longrightarrow>
   \<exists>vars'. loop_i lca g ps vars = Inr vars' \<and> bubble vars' = bubble vars"
proof (induction ps arbitrary: vars)
  case Nil
  then show ?case by simp
next
  case (Cons i ps)
  have "\<forall>j\<in>set ps. lca g i j = Inr None" using Cons.prems by auto
  then obtain v1 where v1: "loop_j lca g i ps vars = Inr v1" "bubble v1 = bubble vars"
    using loop_j_none by blast
  have "\<forall>(i, j)\<in>set (later_pairs ps). lca g i j = Inr None" using Cons.prems by auto
  then obtain v2 where "loop_i lca g ps v1 = Inr v2" "bubble v2 = bubble v1"
    using Cons.IH by blast
  then show ?case using v1 by simp
qed

lemma loop_n_none:
  "\<not> bubble vars \<Longrightarrow>
   \<forall>n\<in>set ns. \<forall>(i, j)\<in>set (later_pairs (predecessors g n)). lca g i j = Inr None \<Longrightarrow>
   \<exists>vars'. loop_n lca g ns vars = Inr vars' \<and> \<not> bubble vars'"
proof (induction ns arbitrary: vars)
  case Nil
  then show ?case by simp
next
  case (Cons n ns)
  show ?case
  proof (cases "length (predecessors g n) > 1")
    case True
    have "\<forall>(i, j)\<in>set (later_pairs (predecessors g n)). lca g i j = Inr None"
      using Cons.prems(2) by simp
    then obtain v1 where v1: "loop_i lca g (predecessors g n) (vars\<lparr>noeud_n := Some n\<rparr>) = Inr v1"
      "bubble v1 = bubble (vars\<lparr>noeud_n := Some n\<rparr>)"
      using loop_i_none by blast
    then have "\<not> bubble v1" using Cons.prems(1) by simp
    then obtain v2 where "loop_n lca g ns v1 = Inr v2" "\<not> bubble v2"
      using Cons.IH Cons.prems(2) by force
    then show ?thesis using True v1 by simp
  next
    case False
    obtain v2 where "loop_n lca g ns vars = Inr v2" "\<not> bubble v2"
      using Cons.IH Cons.prems by force
    then show ?thesis using False Cons.prems(1) by simp
  qed
qed

text \<open>
  When every lowest-common-ancestor query of the scan answers \<open>None\<close>, the bubble
  simplifier returns the graph as it is.
\<close>

lemma simplify_bubbles_unchanged:
  assumes "\<forall>n\<in>set (nodes g). \<forall>(i, j)\<in>set (later_pairs (predecessors g n)).
             lca g i j = Inr None"
  shows "simplify_bubbles lca randint (Suc depth) g = Returned g"
proof -
  obtain vars where
    "loop_n lca g (nodes g) \<lparr>bubble = False, ancestor_node = None, noeud_n = None\<rparr> = Inr vars"
    "\<not> bubble vars"
    using loop_n_none[where vars = "\<lparr>bubble = False, ancestor_node = None, noeud_n = None\<rparr>"
        and ns = "nodes g" and g = g and lca = lca] assms
    by auto
  then show ?thesis by simp
qed

lemma entry_candidates_none:
  "\<forall>s\<in>set starts. has_path g s n = Inr False \<Longrightarrow> entry_candidates g starts n acc = Inr acc"
proof (induction starts)
  case Nil
  then show ?case by simp
next
  case (Cons s starts)
  then show ?case by (cases acc) auto
qed

lemma out_candidates_none:
  "\<forall>s\<in>set sinks. has_path g n s = Inr False \<Longrightarrow> out_candidates g sinks n acc = Inr acc"
proof (induction sinks)
  case Nil
  then show ?case by simp
next
  case (Cons s sinks)
  then show ?case by (cases acc) auto
qed

lemma scan_entry_tips_none:
  "\<forall>n\<in>set ns. 1 < length (predecessors g n) \<longrightarrow>
      (\<forall>s\<in>set starts. has_path g s n = Inr False) \<Longrightarrow>
   scan_entry_tips g starts ns = Inr None"
  by (induction ns) (auto simp: entry_candidates_none)

lemma scan_out_tips_none:
  "\<forall>n\<in>set ns. 1 < length (successors g n) \<longrightarrow>
      (\<forall>s\<in>set sinks. has_path g n s = Inr False) \<Longrightarrow>
   scan_out_tips g sinks ns = Inr None"
  by (induction ns) (auto simp: out_candidates_none)

text \<open>
  On a graph with at least one node, when no node with more than one predecessor
  (successor) is joined to a starting (ending) node, the tip resolver returns the graph
  as it is.
\<close>

lemma solve_tips_unchanged:
  assumes "nodes g \<noteq> []"
  shows "(\<forall>n\<in>set (nodes g). 1 < length (predecessors g n) \<longrightarrow>
            (\<forall>s\<in>set starting_nodes. has_path g s n = Inr False)) \<Longrightarrow>
         solve_entry_tips randint (Suc depth) g starting_nodes = Returned g"
    and "(\<forall>n\<in>set (nodes g). 1 < length (successors g n) \<longrightarrow>
            (\<forall>s\<in>set ending_nodes. has_path g n s = Inr False)) \<Longrightarrow>
         solve_out_tips randint (Suc depth) g ending_nodes = Returned g"
  using assms by (simp_all add: scan_entry_tips_none scan_out_tips_none)

text \<open>
  C9 fails on the code at the graph without nodes, the graph built from no k-mer at
  all. A scan of it finds no qualifying node, and \<open>simplify_bubbles\<close>, which sets its
  flag before the loop, returns it unchanged; \<open>solve_entry_tips\<close> and \<open>solve_out_tips\<close>
  assign \<open>tips\<close> inside the loop only and raise \<open>UnboundLocalError\<close> where the claim has
  them return the graph.
\<close>

theorem tips_on_empty_graph:
  "build_graph [] = empty_graph
   \<and> get_starting_nodes empty_graph = [] \<and> get_sink_nodes empty_graph = []
   \<and> scan_entry_tips empty_graph starting_nodes (nodes empty_graph) = Inr None
   \<and> scan_out_tips empty_graph ending_nodes (nodes empty_graph) = Inr None
   \<and> simplify_bubbles lca randint (Suc depth) empty_graph = Returned empty_graph
   \<and> solve_entry_tips randint (Suc depth) empty_graph starting_nodes
       = Raised UnboundLocalError empty_graph
   \<and> solve_out_tips randint (Suc depth) empty_graph ending_nodes
       = Raised UnboundLocalError empty_graph"
  by (simp add: empty_graph_def build_graph_def get_starting_nodes_def get_sink_nodes_def)

text \<open>
  On a graph with a cycle the library's lowest-common-ancestor query raises, so the
  scan of the bubble simplifier does not get past the first node with two
  predecessors, whether or not they share an ancestor.
\<close>

lemma simplify_bubbles_on_cycle:
  "is_directed_acyclic_graph cycle_beside_junction = False
   \<and> predecessors cycle_beside_junction ''D'' = [''B'', ''C'']
   \<and> filter (\<lambda>a. a \<in> set (ancestors_or_self cycle_beside_junction ''B''))
        (ancestors_or_self cycle_beside_junction ''C'') = []
   \<and> simplify_bubbles lowest_common_ancestor randint (Suc depth) cycle_beside_junction
       = Raised NetworkXError cycle_beside_junction"
  by code_simp

subsection \<open>The counts the graph is built from\<close>

lemma dict_incr_keys:
  "set (map fst (dict_incr k d)) = insert k (set (map fst d))"
proof (induction d)
  case Nil
  then show ?case by simp
next
  case (Cons kc d)
  obtain k' c where kc: "kc = (k', c)" by (cases kc) auto
  show ?case
  proof (cases "k' = k")
    case True
    then show ?thesis using kc by auto
  next
    case False
    then show ?thesis using kc Cons.IH by auto
  qed
qed

lemma distinct_dict_incr:
  "distinct (map fst d) \<Longrightarrow> distinct (map fst (dict_incr k d))"
proof (induction d)
  case Nil
  then show ?case by simp
next
  case (Cons kc d)
  obtain k' c where kc: "kc = (k', c)" by (cases kc) auto
  have "set (map fst (dict_incr k d)) = insert k (set (map fst d))"
    by (rule dict_incr_keys)
  then show ?case using Cons kc by auto
qed

lemma map_of_dict_incr:
  "map_of (dict_incr k d) k' =
     (if k' = k then Some (case map_of d k of None \<Rightarrow> 1 | Some c \<Rightarrow> c + 1) else map_of d k')"
  by (induction d) auto

lemma fold_dict_incr_distinct:
  "distinct (map fst d) \<Longrightarrow> distinct (map fst (fold dict_incr ks d))"
  by (induction ks arbitrary: d) (auto intro: distinct_dict_incr)

lemma fold_dict_incr_count:
  "map_of (fold dict_incr ks d) k =
     (if k \<in> set ks
      then Some ((case map_of d k of None \<Rightarrow> 0 | Some c \<Rightarrow> c) + int (count_list ks k))
      else map_of d k)"
proof (induction ks arbitrary: d)
  case Nil
  then show ?case by simp
next
  case (Cons x ks)
  show ?case
    by (simp add: Cons.IH map_of_dict_incr split: option.splits)
qed

text \<open>
  \<open>build_kmer_dict\<close> maps every string that \<open>cut_kmer\<close> yields for some read to the
  number of times it is yielded over all reads, and nothing else; its keys are distinct.
\<close>

lemma build_kmer_dict_counts:
  "distinct (map fst (build_kmer_dict reads k))
   \<and> map_of (build_kmer_dict reads k) kmer =
       (if kmer \<in> set (concat (map (\<lambda>read. cut_kmer read k) reads))
        then Some (int (count_list (concat (map (\<lambda>read. cut_kmer read k) reads)) kmer))
        else None)"
proof -
  have "fold (\<lambda>read d. fold dict_incr (cut_kmer read k) d) reads d =
      fold dict_incr (concat (map (\<lambda>read. cut_kmer read k) reads)) d" for d
    by (induction reads arbitrary: d) simp_all
  then have "build_kmer_dict reads k =
      fold dict_incr (concat (map (\<lambda>read. cut_kmer read k) reads)) []"
    by (simp add: build_kmer_dict_def)
  then show ?thesis
    using fold_dict_incr_distinct[of "[]"] by (simp add: fold_dict_incr_count)
qed

subsection \<open>The contig of a single path\<close>

lemma last_chars_map:
  "\<forall>kmer\<in>set kmers. kmer \<noteq> [] \<Longrightarrow> last_chars kmers = Inr (map last kmers)"
  by (induction kmers) auto

text \<open>The first path of a pair, read with \<open>seq\<close> still empty, gives the contig of the specification.\<close>

lemma contigs_of_single_path:
  "p \<noteq> [] \<Longrightarrow> \<forall>kmer\<in>set (tl p). kmer \<noteq> [] \<Longrightarrow>
   contigs_of_paths [p] [] = Inr [contig_of_path p]"
  by (cases p) (simp_all add: last_chars_map contig_of_path_def)

subsection \<open>From reads to edges\<close>

lemma length_py_slice:
  "length (py_slice xs lo hi) =
     min (slice_bound (length xs) hi - slice_bound (length xs) lo)
         (length xs - slice_bound (length xs) lo)"
  by (simp add: py_slice_def Let_def)

text \<open>
  For \<open>k\<close> of two or more every string \<open>cut_kmer\<close> yields has at least two characters,
  the shorter strings it yields for reads shorter than \<open>k\<close> included.
\<close>

lemma cut_kmer_lengths:
  assumes "2 \<le> k"
  shows "\<forall>kmer\<in>set (cut_kmer read k). 2 \<le> length kmer"
proof
  fix kmer assume "kmer \<in> set (cut_kmer read k)"
  then obtain r where r: "r < length (py_slice read 0 (int (length read) - k + 1))"
    "kmer = py_slice read (int r) (int r + k)"
    by (auto simp: cut_kmer_def)
  define n where "n = length read"
  have bound: "int r < int n - k + 1 \<or> (int n - k + 1 < 0 \<and> int r < 2 * int n - k + 1)"
    using r(1) unfolding length_py_slice n_def[symmetric] slice_bound_def
    by (auto split: if_splits)
  have rn: "r < n" using r(1) unfolding length_py_slice n_def[symmetric] slice_bound_def
    by (auto split: if_splits)
  have len: "int (length kmer) = min (int n) (int r + k) - int r"
    using rn assms unfolding r(2) length_py_slice n_def[symmetric] slice_bound_def
    by (auto simp: min_def)
  show "2 \<le> length kmer"
    using bound len assms by (auto simp: min_def split: if_splits)
qed

text \<open>
  Hence the graph the program builds from its reads, for \<open>k\<close> of two or more, has one
  edge per key of the k-mer dictionary, weighted with the count of the key.
\<close>

lemma graph_of_reads_edges:
  assumes "2 \<le> k"
  shows "edges (build_graph (build_kmer_dict reads k)) = map kmer_edge (build_kmer_dict reads k)"
proof -
  let ?d = "build_kmer_dict reads k"
  have d: "distinct (map fst ?d)" using build_kmer_dict_counts by blast
  have "2 \<le> length kmer" if "kmer \<in> set (map fst ?d)" for kmer
  proof -
    have "map_of ?d kmer \<noteq> None" using that by (simp add: map_of_eq_None_iff)
    then have "kmer \<in> set (concat (map (\<lambda>read. cut_kmer read k) reads))"
      using build_kmer_dict_counts[of reads k kmer] by (auto split: if_splits)
    then show ?thesis using cut_kmer_lengths[OF assms] by auto
  qed
  then have "\<forall>kmer\<in>set (map fst ?d). 2 \<le> length kmer" by blast
  then show ?thesis
    using fold_add_kmer_edges[OF d, of empty_graph]
    by (simp add: build_graph_def empty_graph_def)
qed

subsection \<open>A single starting node that reaches the junction\<close>

lemma entry_candidates_skip:
  "\<forall>s\<in>set skipped. has_path g s n = Inr False \<Longrightarrow>
   entry_candidates g (skipped @ rest) n acc = entry_candidates g rest n acc"
proof (induction skipped)
  case Nil
  then show ?case by simp
next
  case (Cons s skipped)
  then show ?case by (cases acc) auto
qed

lemma out_candidates_skip:
  "\<forall>s\<in>set skipped. has_path g n s = Inr False \<Longrightarrow>
   out_candidates g (skipped @ rest) n acc = out_candidates g rest n acc"
proof (induction skipped)
  case Nil
  then show ?case by simp
next
  case (Cons s skipped)
  then show ?case by (cases acc) auto
qed

lemma scan_entry_tips_skip:
  "\<forall>m\<in>set before. 1 < length (predecessors g m) \<longrightarrow>
      (\<forall>s\<in>set starts. has_path g s m = Inr False) \<Longrightarrow>
   scan_entry_tips g starts (before @ rest) = scan_entry_tips g starts rest"
  by (induction before) (auto simp: entry_candidates_none)

lemma scan_out_tips_skip:
  "\<forall>m\<in>set before. 1 < length (successors g m) \<longrightarrow>
      (\<forall>s\<in>set sinks. has_path g m s = Inr False) \<Longrightarrow>
   scan_out_tips g sinks (before @ rest) = scan_out_tips g sinks rest"
  by (induction before) (auto simp: out_candidates_none)

lemma entry_candidates_single:
  assumes "has_path g s n = Inr True"
    and "\<forall>t\<in>set (l @ r). has_path g t n = Inr False"
  shows "(\<exists>e. entry_candidates g (l @ s # r) n ([], [], []) = Inl e)
       \<or> (\<exists>p w. entry_candidates g (l @ s # r) n ([], [], []) = Inr ([p], [length p], [w]))"
proof -
  have l: "\<forall>t\<in>set l. has_path g t n = Inr False" and r: "\<forall>t\<in>set r. has_path g t n = Inr False"
    using assms(2) by auto
  have "entry_candidates g (l @ s # r) n ([], [], []) =
        entry_candidates g (s # r) n ([], [], [])"
    by (rule entry_candidates_skip[OF l])
  then show ?thesis
    using assms(1) entry_candidates_none[OF r]
    by (auto split: sum.splits list.splits)
qed

lemma out_candidates_single:
  assumes "has_path g n s = Inr True"
    and "\<forall>t\<in>set (l @ r). has_path g n t = Inr False"
  shows "(\<exists>e. out_candidates g (l @ s # r) n ([], [], []) = Inl e)
       \<or> (\<exists>p w. out_candidates g (l @ s # r) n ([], [], []) = Inr ([p], [length p], [w]))"
proof -
  have l: "\<forall>t\<in>set l. has_path g n t = Inr False" and r: "\<forall>t\<in>set r. has_path g n t = Inr False"
    using assms(2) by auto
  have "out_candidates g (l @ s # r) n ([], [], []) =
        out_candidates g (s # r) n ([], [], [])"
    by (rule out_candidates_skip[OF l])
  then show ?thesis
    using assms(1) out_candidates_none[OF r]
    by (auto split: sum.splits list.splits)
qed

text \<open>
  The single candidate in terms of the graph. Let the scan pass the nodes \<open>before\<close> (none of them a
  node with several predecessors that a starting node reaches) and come to \<open>n\<close>, a node
  with several predecessors that exactly one entry of the list of starting nodes
  reaches. Then the call raises and leaves the graph as it was. The exception is the
  \<open>StatisticsError\<close> of the selector once the candidate of that starting node is
  recorded, by \<open>entry_single\<close>; it is another one when recording it fails.
\<close>

lemma single_reaching_start_raises:
  assumes "nodes g = before @ n # after"
    and "\<forall>m\<in>set before. 1 < length (predecessors g m) \<longrightarrow>
           (\<forall>t\<in>set (l @ s # r). has_path g t m = Inr False)"
    and "1 < length (predecessors g n)"
    and "has_path g s n = Inr True"
    and "\<forall>t\<in>set (l @ r). has_path g t n = Inr False"
  shows "\<exists>e. solve_entry_tips randint (Suc depth) g (l @ s # r) = Raised e g"
proof -
  have scan: "scan_entry_tips g (l @ s # r) (nodes g) =
      scan_entry_tips g (l @ s # r) (n # after)"
    unfolding assms(1) by (rule scan_entry_tips_skip[OF assms(2)])
  have ne: "nodes g \<noteq> []" using assms(1) by simp
  from entry_candidates_single[OF assms(4,5)] show ?thesis
  proof
    assume "\<exists>e. entry_candidates g (l @ s # r) n ([], [], []) = Inl e"
    then show ?thesis using scan ne assms(3) by auto
  next
    assume "\<exists>p w. entry_candidates g (l @ s # r) n ([], [], []) = Inr ([p], [length p], [w])"
    then obtain p w where
      "entry_candidates g (l @ s # r) n ([], [], []) = Inr ([p], [length p], [w])"
      by blast
    then have "scan_entry_tips g (l @ s # r) (nodes g) = Inr (Some ([p], [length p], [w]))"
      using scan assms(3) by simp
    then show ?thesis using entry_single[of g "l @ s # r" "[p]" "[length p]" "[w]"] by auto
  qed
qed

lemma single_reached_end_raises:
  assumes "nodes g = before @ n # after"
    and "\<forall>m\<in>set before. 1 < length (successors g m) \<longrightarrow>
           (\<forall>t\<in>set (l @ s # r). has_path g m t = Inr False)"
    and "1 < length (successors g n)"
    and "has_path g n s = Inr True"
    and "\<forall>t\<in>set (l @ r). has_path g n t = Inr False"
  shows "\<exists>e. solve_out_tips randint (Suc depth) g (l @ s # r) = Raised e g"
proof -
  have scan: "scan_out_tips g (l @ s # r) (nodes g) =
      scan_out_tips g (l @ s # r) (n # after)"
    unfolding assms(1) by (rule scan_out_tips_skip[OF assms(2)])
  have ne: "nodes g \<noteq> []" using assms(1) by simp
  from out_candidates_single[OF assms(4,5)] show ?thesis
  proof
    assume "\<exists>e. out_candidates g (l @ s # r) n ([], [], []) = Inl e"
    then show ?thesis using scan ne assms(3) by auto
  next
    assume "\<exists>p w. out_candidates g (l @ s # r) n ([], [], []) = Inr ([p], [length p], [w])"
    then obtain p w where
      "out_candidates g (l @ s # r) n ([], [], []) = Inr ([p], [length p], [w])"
      by blast
    then have "scan_out_tips g (l @ s # r) (nodes g) = Inr (Some ([p], [length p], [w]))"
      using scan assms(3) by simp
    then show ?thesis using out_single[of g "l @ s # r" "[p]" "[length p]" "[w]"] by auto
  qed
qed

subsection \<open>What the candidates are annotated with\<close>

lemma weights_of_snoc:
  "weights_of g ps = Inr ws \<Longrightarrow> path_average_weight g p = Inr w \<Longrightarrow>
   weights_of g (ps @ [p]) = Inr (ws @ [w])"
  by (induction ps arbitrary: ws) (auto split: sum.splits)

text \<open>
  Every candidate a tip resolver records carries its node count as length and the
  value of \<open>path_average_weight\<close> as mean weight, as the candidates of \<open>solve_bubble\<close> do
  by definition.
\<close>

lemma entry_candidates_annotated:
  "entry_candidates g starts n (ps0, map length ps0, ws0) = Inr (ps, ls, ws) \<Longrightarrow>
   weights_of g ps0 = Inr ws0 \<Longrightarrow>
   ls = map length ps \<and> weights_of g ps = Inr ws"
proof (induction starts arbitrary: ps0 ws0)
  case Nil
  then show ?case by auto
next
  case (Cons s starts)
  show ?case
  proof (cases "has_path g s n = Inr True")
    case False
    then have "entry_candidates g starts n (ps0, map length ps0, ws0) = Inr (ps, ls, ws)"
      using Cons.prems(1) by (auto split: sum.splits bool.splits)
    then show ?thesis using Cons.IH Cons.prems(2) by blast
  next
    case True
    then obtain p rest w where p: "all_simple_paths g s n = Inr (p # rest)"
      "path_average_weight g p = Inr w"
      "entry_candidates g starts n (ps0 @ [p], map length ps0 @ [length p], ws0 @ [w])
         = Inr (ps, ls, ws)"
      using Cons.prems(1) by (auto split: sum.splits list.splits)
    have "weights_of g (ps0 @ [p]) = Inr (ws0 @ [w])"
      using Cons.prems(2) p(2) by (rule weights_of_snoc)
    moreover have "entry_candidates g starts n (ps0 @ [p], map length (ps0 @ [p]), ws0 @ [w])
         = Inr (ps, ls, ws)"
      using p(3) by simp
    ultimately show ?thesis using Cons.IH by blast
  qed
qed

lemma out_candidates_annotated:
  "out_candidates g sinks n (ps0, map length ps0, ws0) = Inr (ps, ls, ws) \<Longrightarrow>
   weights_of g ps0 = Inr ws0 \<Longrightarrow>
   ls = map length ps \<and> weights_of g ps = Inr ws"
proof (induction sinks arbitrary: ps0 ws0)
  case Nil
  then show ?case by auto
next
  case (Cons s sinks)
  show ?case
  proof (cases "has_path g n s = Inr True")
    case False
    then have "out_candidates g sinks n (ps0, map length ps0, ws0) = Inr (ps, ls, ws)"
      using Cons.prems(1) by (auto split: sum.splits bool.splits)
    then show ?thesis using Cons.IH Cons.prems(2) by blast
  next
    case True
    then obtain p rest w where p: "all_simple_paths g n s = Inr (p # rest)"
      "path_average_weight g p = Inr w"
      "out_candidates g sinks n (ps0 @ [p], map length ps0 @ [length p], ws0 @ [w])
         = Inr (ps, ls, ws)"
      using Cons.prems(1) by (auto split: sum.splits list.splits)
    have "weights_of g (ps0 @ [p]) = Inr (ws0 @ [w])"
      using Cons.prems(2) p(2) by (rule weights_of_snoc)
    moreover have "out_candidates g sinks n (ps0 @ [p], map length (ps0 @ [p]), ws0 @ [w])
         = Inr (ps, ls, ws)"
      using p(3) by simp
    ultimately show ?thesis using Cons.IH by blast
  qed
qed

text \<open>
  Where the nodes of a path are joined by the edges of the path only, the induced
  subgraph holds exactly those edges and the two means agree.
\<close>

lemma path_average_weight_without_chord:
  "subgraph_edges g p = consecutive_edges g p \<Longrightarrow>
   path_average_weight g p = mean_over_path_edges g p"
  by (simp add: path_average_weight_def mean_over_path_edges_def)

end
